theory Spec2Isabelle
  imports Main "HOL-Library.AList"
begin

section \<open>Python values used by \<^verbatim>\<open>scripts/pdf_processor.py\<close>\<close>

text \<open>
  A Python \<^verbatim>\<open>str\<close> is modelled as a \<^typ>\<open>string\<close>, one \<^typ>\<open>char\<close> per code point
  (so the model covers the code points below 256); \<^verbatim>\<open>len\<close> counts list elements, as
  Python counts code points. Python integers are unbounded, hence \<^typ>\<open>int\<close>. Python's
  \<^verbatim>\<open>//\<close> rounds towards minus infinity, as \<open>div\<close> on \<^typ>\<open>int\<close> does.
\<close>

text \<open>The exceptions that reach the functions of the module. Each carries its message.\<close>

datatype exception =
    ValueError string
  | OSError string
  | JSONDecodeError string
  | RecursionError string
  | PdfReadError string

fun str_exception :: "exception \<Rightarrow> string" where
  "str_exception (ValueError m) = m"
| "str_exception (OSError m) = m"
| "str_exception (JSONDecodeError m) = m"
| "str_exception (RecursionError m) = m"
| "str_exception (PdfReadError m) = m"

text \<open>
  What \<^verbatim>\<open>json.load\<close> produces, which is also what a metadata value can be
  (\<^verbatim>\<open>Dict[str, Any]\<close> holding strings, integers and the original JSON item). The values
  that are neither \<^verbatim>\<open>dict\<close> nor \<^verbatim>\<open>list\<close> are the scalars; a float is kept as its
  \<^verbatim>\<open>repr\<close>, the only thing the module ever does with one. A \<^verbatim>\<open>dict\<close> keeps insertion
  order, so it is an association list.
\<close>

datatype scalar =
    SNone
  | SBool bool
  | SInt int
  | SFloat string
  | SStr string

datatype json =
    Scalar scalar
  | JList "json list"
  | JDict "(string \<times> json) list"

abbreviation JInt :: "int \<Rightarrow> json" where
  "JInt n \<equiv> Scalar (SInt n)"

abbreviation JStr :: "string \<Rightarrow> json" where
  "JStr s \<equiv> Scalar (SStr s)"

text \<open>\<^verbatim>\<open>d[k] = v\<close>: an existing key keeps its position, a new key goes last.\<close>

definition dict_set :: "(string \<times> 'v) list \<Rightarrow> string \<Rightarrow> 'v \<Rightarrow> (string \<times> 'v) list" where
  "dict_set d k v = AList.update k v d"

text \<open>\<^verbatim>\<open>d.get(k, default)\<close>.\<close>

definition dict_get :: "(string \<times> 'v) list \<Rightarrow> string \<Rightarrow> 'v \<Rightarrow> 'v" where
  "dict_get d k dflt = (case map_of d k of None \<Rightarrow> dflt | Some v \<Rightarrow> v)"

text \<open>\<^verbatim>\<open>d.update(other)\<close>: the items of \<open>other\<close> are stored one by one, in order.\<close>

definition dict_update :: "(string \<times> 'v) list \<Rightarrow> (string \<times> 'v) list \<Rightarrow> (string \<times> 'v) list" where
  "dict_update d other = foldl (\<lambda>acc (k, v). dict_set acc k v) d other"

definition len :: "'a list \<Rightarrow> int" where
  "len xs = int (length xs)"

text \<open>
  \<^verbatim>\<open>xs[i:j]\<close>: a negative bound counts from the end, and both bounds are clamped to
  the sequence.
\<close>

definition py_slice :: "'a list \<Rightarrow> int \<Rightarrow> int \<Rightarrow> 'a list" where
  "py_slice xs i j =
     (let n = len xs;
          lo = (if i < 0 then max (n + i) 0 else min i n);
          hi = (if j < 0 then max (n + j) 0 else min j n)
      in take (nat (hi - lo)) (drop (nat lo) xs))"

text \<open>\<^verbatim>\<open>range(start, stop, step)\<close>, as the list of its values; a zero step raises.\<close>

definition py_range :: "int \<Rightarrow> int \<Rightarrow> int \<Rightarrow> exception + int list" where
  "py_range start stop step =
     (if step = 0 then Inl (ValueError ''range() arg 3 must not be zero'')
      else if 0 < step then
        Inr (map (\<lambda>k. start + int k * step) [0..<nat ((stop - start + step - 1) div step)])
      else
        Inr (map (\<lambda>k. start + int k * step) [0..<nat ((start - stop - step - 1) div (- step))]))"

text \<open>\<^verbatim>\<open>str(n)\<close> for an integer: its decimal digits.\<close>

fun str_nat :: "nat \<Rightarrow> string" where
  "str_nat n = (if n < 10 then [''0123456789'' ! n]
                else str_nat (n div 10) @ [''0123456789'' ! (n mod 10)])"

declare str_nat.simps [simp del]

definition str_int :: "int \<Rightarrow> string" where
  "str_int i = (if i < 0 then ''-'' @ str_nat (nat (- i)) else str_nat (nat i))"

text \<open>\<^verbatim>\<open>str(v)\<close> for a scalar, as an f-string renders it.\<close>

fun str_scalar :: "scalar \<Rightarrow> string" where
  "str_scalar SNone = ''None''"
| "str_scalar (SBool b) = (if b then ''True'' else ''False'')"
| "str_scalar (SInt i) = str_int i"
| "str_scalar (SFloat r) = r"
| "str_scalar (SStr s) = s"

text \<open>\<^verbatim>\<open>sep.join(parts)\<close>.\<close>

fun py_join :: "string \<Rightarrow> string list \<Rightarrow> string" where
  "py_join sep [] = []"
| "py_join sep [x] = x"
| "py_join sep (x # y # ys) = x @ sep @ py_join sep (y # ys)"

text \<open>
  \<^verbatim>\<open>str.isspace\<close> on one code point below 256 (tab to carriage return, the four
  separators, space, next line, no-break space), and \<^verbatim>\<open>str.strip()\<close>.
\<close>

definition is_space :: "char \<Rightarrow> bool" where
  "is_space c = ((of_char c :: nat) \<in> {9, 10, 11, 12, 13, 28, 29, 30, 31, 32, 133, 160})"

definition strip :: "string \<Rightarrow> string" where
  "strip s = rev (dropWhile is_space (rev (dropWhile is_space s)))"

text \<open>\<^verbatim>\<open>str.lower()\<close> on code points below 256.\<close>

definition lower_char :: "char \<Rightarrow> char" where
  "lower_char c =
     (let n = (of_char c :: nat)
      in if (65 \<le> n \<and> n \<le> 90) \<or> (192 \<le> n \<and> n \<le> 222 \<and> n \<noteq> 215)
         then char_of (n + 32) else c)"

definition lower :: "string \<Rightarrow> string" where
  "lower s = map lower_char s"

text \<open>
  \<^verbatim>\<open>os.path.basename\<close> and the second component of \<^verbatim>\<open>os.path.splitext\<close> (POSIX): the
  extension starts at the last dot of the file name, unless only dots precede it.
\<close>

definition basename :: "string \<Rightarrow> string" where
  "basename p = rev (takeWhile (\<lambda>c. c \<noteq> CHR ''/'') (rev p))"

definition splitext_ext :: "string \<Rightarrow> string" where
  "splitext_ext p =
     (let name = basename p;
          ext = rev (takeWhile (\<lambda>c. c \<noteq> CHR ''.'') (rev name));
          stem = take (length name - length ext - 1) name
      in if CHR ''.'' \<in> set name \<and> list_ex (\<lambda>c. c \<noteq> CHR ''.'') stem
         then CHR ''.'' # ext else [])"

section \<open>Chunk records and the log\<close>

text \<open>
  The unit of the pipeline, \<^verbatim>\<open>{"text": ..., "metadata": {...}}\<close>.
\<close>

record chunk =
  "text" :: string
  metadata :: "(string \<times> json) list"

text \<open>
  What the module's logger receives, in order. The text of a traceback is the
  interpreter's; its record keeps the exception it was formatted for.
\<close>

datatype log_record =
    LogInfo string
  | LogWarning string
  | LogError string
  | LogTraceback exception

text \<open>The two \<^verbatim>\<open>logger.error\<close> calls of every \<^verbatim>\<open>except\<close> block.\<close>

definition log_exception :: "string \<Rightarrow> exception \<Rightarrow> log_record list" where
  "log_exception what e = [LogError (what @ str_exception e), LogTraceback e]"

section \<open>\<^verbatim>\<open>flatten_json\<close>\<close>

text \<open>
  Lines 173-205. The two \<^verbatim>\<open>for\<close> loops are functions of the items still to visit and the
  dictionary \<open>result\<close> built so far; the list loop also carries the index that
  \<^verbatim>\<open>enumerate\<close> counts. The function has no depth parameter and no \<^verbatim>\<open>raise\<close>; it is
  modelled as the recursion its text defines, and the call stack of the interpreter that
  runs it is not part of the model.
\<close>

function flatten_json :: "json \<Rightarrow> string \<Rightarrow> (string \<times> scalar) list"
  and flatten_dict_loop ::
    "(string \<times> json) list \<Rightarrow> string \<Rightarrow> (string \<times> scalar) list \<Rightarrow> (string \<times> scalar) list"
  and flatten_list_loop ::
    "json list \<Rightarrow> nat \<Rightarrow> string \<Rightarrow> (string \<times> scalar) list \<Rightarrow> (string \<times> scalar) list"
where
  "flatten_json (JDict obj) prefix = flatten_dict_loop obj prefix []"
| "flatten_json (JList obj) prefix = flatten_list_loop obj 0 prefix []"
| "flatten_json (Scalar obj) prefix = dict_set [] prefix obj"
| "flatten_dict_loop [] prefix result = result"
| "flatten_dict_loop ((key, value) # rest) prefix result =
     (let new_key = (if prefix \<noteq> [] then prefix @ ''.'' @ key else key)
      in flatten_dict_loop rest prefix
           (case value of
              Scalar s \<Rightarrow> dict_set result new_key s
            | _ \<Rightarrow> dict_update result (flatten_json value new_key)))"
| "flatten_list_loop [] i prefix result = result"
| "flatten_list_loop (item # rest) i prefix result =
     (let new_key = prefix @ ''['' @ str_nat i @ '']''
      in flatten_list_loop rest (Suc i) prefix
           (case item of
              Scalar s \<Rightarrow> dict_set result new_key s
            | _ \<Rightarrow> dict_update result (flatten_json item new_key)))"
  by pat_completeness auto
termination
  by (relation "measure (\<lambda>x. case x of
         Inl (obj, prefix) \<Rightarrow> 2 * size obj
       | Inr (Inl (obj, prefix, result)) \<Rightarrow> 2 * size_list (size_prod (\<lambda>_. 0) size) obj + 1
       | Inr (Inr (obj, i, prefix, result)) \<Rightarrow> 2 * size_list size obj + 1)") auto

text \<open>
  The scalar leaves of a value in traversal order (object members in their order, array
  elements by index), and the conditions on object keys under which the generated
  key-paths cannot coincide: within one object the keys differ (as in every Python
  \<^verbatim>\<open>dict\<close>), and no key is empty or contains \<open>.\<close> or \<open>[\<close>.
\<close>

fun leaves :: "json \<Rightarrow> scalar list"
  and leaves_list :: "json list \<Rightarrow> scalar list"
  and leaves_items :: "(string \<times> json) list \<Rightarrow> scalar list"
where
  "leaves (Scalar s) = [s]"
| "leaves (JList obj) = leaves_list obj"
| "leaves (JDict obj) = leaves_items obj"
| "leaves_list [] = []"
| "leaves_list (item # rest) = leaves item @ leaves_list rest"
| "leaves_items [] = []"
| "leaves_items (kv # rest) = leaves (snd kv) @ leaves_items rest"

text \<open>
  The flattened key-paths as the specification words them: object keys joined with \<open>.\<close>
  (no separator when the prefix is empty), array indices appended as \<open>[i]\<close> counted
  from zero, one pair per scalar leaf in traversal order, nothing merged.
\<close>

fun key_paths :: "json \<Rightarrow> string \<Rightarrow> (string \<times> scalar) list"
  and key_paths_list :: "json list \<Rightarrow> nat \<Rightarrow> string \<Rightarrow> (string \<times> scalar) list"
  and key_paths_items :: "(string \<times> json) list \<Rightarrow> string \<Rightarrow> (string \<times> scalar) list"
where
  "key_paths (Scalar s) prefix = [(prefix, s)]"
| "key_paths (JList obj) prefix = key_paths_list obj 0 prefix"
| "key_paths (JDict obj) prefix = key_paths_items obj prefix"
| "key_paths_list [] i prefix = []"
| "key_paths_list (item # rest) i prefix =
     key_paths item (prefix @ ''['' @ str_nat i @ '']'') @ key_paths_list rest (Suc i) prefix"
| "key_paths_items [] prefix = []"
| "key_paths_items (kv # rest) prefix =
     key_paths (snd kv) (if prefix \<noteq> [] then prefix @ ''.'' @ fst kv else fst kv) @
     key_paths_items rest prefix"

definition plain_key :: "string \<Rightarrow> bool" where
  "plain_key k = (k \<noteq> [] \<and> CHR ''.'' \<notin> set k \<and> CHR ''['' \<notin> set k)"

fun plain_keys :: "json \<Rightarrow> bool"
  and plain_keys_list :: "json list \<Rightarrow> bool"
  and plain_keys_items :: "(string \<times> json) list \<Rightarrow> bool"
where
  "plain_keys (Scalar s) = True"
| "plain_keys (JList obj) = plain_keys_list obj"
| "plain_keys (JDict obj) = (distinct (map fst obj) \<and> plain_keys_items obj)"
| "plain_keys_list [] = True"
| "plain_keys_list (item # rest) = (plain_keys item \<and> plain_keys_list rest)"
| "plain_keys_items [] = True"
| "plain_keys_items (kv # rest) =
     (plain_key (fst kv) \<and> plain_keys (snd kv) \<and> plain_keys_items rest)"

section \<open>\<^verbatim>\<open>split_into_chunks\<close>\<close>

text \<open>
  The dictionary display of lines 240-248: the original metadata unpacked first, then the
  three keys stored in order.
\<close>

definition sub_chunk :: "chunk \<Rightarrow> int \<Rightarrow> int \<Rightarrow> int \<Rightarrow> int \<Rightarrow> chunk" where
  "sub_chunk item chunk_size overlap i chunk_num =
     \<lparr> text = py_slice (text item) i (min (i + chunk_size) (len (text item))),
       metadata =
         dict_set
           (dict_set
              (dict_set (metadata item) ''chunk'' (JInt chunk_num))
              ''total_chunks_from_original''
              (JInt ((len (text item) + chunk_size - 1) div (chunk_size - overlap))))
           ''original_page''
           (dict_get (metadata item) ''page'' (JInt 1)) \<rparr>"

text \<open>
  The inner \<^verbatim>\<open>for i in range(...)\<close> loop of lines 231-250 over the values of the range,
  with the list \<open>chunks\<close> built so far; the \<^verbatim>\<open>break\<close> returns it.
\<close>

fun window_loop :: "chunk \<Rightarrow> int \<Rightarrow> int \<Rightarrow> int list \<Rightarrow> chunk list \<Rightarrow> chunk list" where
  "window_loop item chunk_size overlap [] chunks = chunks"
| "window_loop item chunk_size overlap (i # rest) chunks =
     (if 0 < i \<and> len (text item) < i + chunk_size then chunks
      else window_loop item chunk_size overlap rest
             (chunks @ [sub_chunk item chunk_size overlap i (len chunks + 1)]))"

text \<open>
  The outer loop of lines 221-252 with the list \<open>results\<close> built so far. The only
  exception it can raise is the one of \<^verbatim>\<open>range\<close>.
\<close>

fun split_loop :: "chunk list \<Rightarrow> int \<Rightarrow> int \<Rightarrow> chunk list \<Rightarrow> exception + chunk list" where
  "split_loop [] chunk_size overlap results = Inr results"
| "split_loop (item # texts) chunk_size overlap results =
     (if len (text item) \<le> chunk_size then
        split_loop texts chunk_size overlap (results @ [item])
      else
        (case py_range 0 (len (text item)) (chunk_size - overlap) of
           Inl e \<Rightarrow> Inl e
         | Inr indices \<Rightarrow>
             split_loop texts chunk_size overlap
               (results @ window_loop item chunk_size overlap indices [])))"

definition split_into_chunks :: "chunk list \<Rightarrow> int \<Rightarrow> int \<Rightarrow> exception + chunk list" where
  "split_into_chunks texts chunk_size overlap = split_loop texts chunk_size overlap []"

text \<open>What one pass of the outer loop appends for \<open>item\<close>.\<close>

definition split_item :: "chunk \<Rightarrow> int \<Rightarrow> int \<Rightarrow> exception + chunk list" where
  "split_item item chunk_size overlap =
     (if len (text item) \<le> chunk_size then Inr [item]
      else (case py_range 0 (len (text item)) (chunk_size - overlap) of
              Inl e \<Rightarrow> Inl e
            | Inr indices \<Rightarrow> Inr (window_loop item chunk_size overlap indices [])))"

text \<open>
  \<open>ceiling(a / b)\<close> for a positive divisor, the quantity the specification names for
  \<^verbatim>\<open>total_chunks_from_original\<close>.
\<close>

definition ceil_div :: "int \<Rightarrow> int \<Rightarrow> int" where
  "ceil_div a b = - ((- a) div b)"

text \<open>
  Notions used to tell key-paths apart: the two characters that start a path segment, a
  path that continues \<open>p\<close> with whole segments, and the key the loops build for an object
  member and for an array index.
\<close>

definition is_sep :: "char \<Rightarrow> bool" where
  "is_sep c = (c = CHR ''.'' \<or> c = CHR ''['')"

definition extends :: "string \<Rightarrow> string \<Rightarrow> bool" where
  "extends p s = (\<exists>t. s = p @ t \<and> (t = [] \<or> is_sep (hd t)))"

definition member_key :: "string \<Rightarrow> string \<Rightarrow> string" where
  "member_key prefix key = (if prefix \<noteq> [] then prefix @ ''.'' @ key else key)"

definition index_key :: "string \<Rightarrow> nat \<Rightarrow> string" where
  "index_key prefix i = prefix @ ''['' @ str_nat i @ '']''"

section \<open>The extractors\<close>

text \<open>
  The extractors read the file through \<^verbatim>\<open>PdfReader\<close>, \<^verbatim>\<open>open\<close> and \<^verbatim>\<open>json.load\<close>.
  What these return, or the exception they raise, is an argument of the model. Every
  extractor returns its result together with the records it logged.
\<close>

text \<open>
  Lines 37-61, over the pages still to visit: \<open>i\<close> is the index \<^verbatim>\<open>enumerate\<close> counts and
  each page is what \<^verbatim>\<open>page.extract_text()\<close> returns or raises. The dictionary
  \<^verbatim>\<open>metadata\<close> of lines 46-48 is never read again and is left out.
\<close>

fun pdf_loop ::
  "string \<Rightarrow> int \<Rightarrow> (exception + string) list \<Rightarrow> int \<Rightarrow> chunk list \<Rightarrow> log_record list
     \<Rightarrow> (exception + chunk list) \<times> log_record list" where
  "pdf_loop pdf_path num_pages [] i results lg = (Inr results, lg)"
| "pdf_loop pdf_path num_pages (page # pages) i results lg =
     (let page_num = i + 1
      in case page of
           Inl e \<Rightarrow> (Inl e, lg)
         | Inr page_text \<Rightarrow>
             if page_text = [] \<or> len (strip page_text) = 0 then
               pdf_loop pdf_path num_pages pages (i + 1) results
                 (lg @ [LogWarning (''Page '' @ str_int page_num @ '' has no extractable text'')])
             else
               pdf_loop pdf_path num_pages pages (i + 1)
                 (results @
                    [\<lparr> text = page_text,
                        metadata =
                          [(''source'', JStr (basename pdf_path)),
                           (''page'', JInt page_num),
                           (''total_pages'', JInt num_pages),
                           (''format'', JStr ''pdf'')] \<rparr>])
                 lg)"

definition extract_text_from_pdf ::
  "string \<Rightarrow> exception + (exception + string) list
     \<Rightarrow> (exception + chunk list) \<times> log_record list" where
  "extract_text_from_pdf pdf_path reader =
     (let lg = [LogInfo (''Processing PDF: '' @ pdf_path)]
      in case reader of
           Inl e \<Rightarrow> (Inl e, lg @ log_exception ''Error processing PDF: '' e)
         | Inr pages \<Rightarrow>
             (case pdf_loop pdf_path (len pages) pages 0 [] lg of
                (Inl e, lg') \<Rightarrow> (Inl e, lg' @ log_exception ''Error processing PDF: '' e)
              | (Inr results, lg') \<Rightarrow>
                  (Inr results,
                   lg' @ [LogInfo (''Successfully extracted text from '' @
                            str_int (len results) @ '' pages'')])))"

text \<open>The dictionary display of lines 99-107 for the slab that starts at \<open>i\<close>.\<close>

definition txt_chunk :: "string \<Rightarrow> string \<Rightarrow> int \<Rightarrow> int \<Rightarrow> chunk" where
  "txt_chunk txt_path content chunk_size i =
     \<lparr> text = py_slice content i (i + chunk_size),
       metadata =
         [(''source'', JStr (basename txt_path)),
          (''chunk'', JInt (i div chunk_size + 1)),
          (''total_chunks'', JInt ((len content + chunk_size - 1) div chunk_size)),
          (''format'', JStr ''txt'')] \<rparr>"

definition extract_text_from_txt ::
  "string \<Rightarrow> exception + string \<Rightarrow> (exception + chunk list) \<times> log_record list" where
  "extract_text_from_txt txt_path file =
     (let lg = [LogInfo (''Processing TXT: '' @ txt_path)]
      in case file of
           Inl e \<Rightarrow> (Inl e, lg @ log_exception ''Error processing TXT: '' e)
         | Inr content \<Rightarrow>
             if content = [] \<or> len (strip content) = 0 then
               (Inr [], lg @ [LogWarning ''TXT file has no text content''])
             else
               (let chunk_size = 1000
                in case py_range 0 (len content) chunk_size of
                     Inl e \<Rightarrow> (Inl e, lg @ log_exception ''Error processing TXT: '' e)
                   | Inr indices \<Rightarrow>
                       (let chunks = map (txt_chunk txt_path content chunk_size) indices
                        in (Inr chunks,
                            lg @ [LogInfo (''Successfully extracted '' @ str_int (len chunks) @
                                    '' chunks from text file'')]))))"

text \<open>
  Lines 144-163 for the item at index \<open>i\<close>. The string of line 136
  (\<^verbatim>\<open>json.dumps\<close> of the whole content) is never read again and is left out.
\<close>

definition json_chunk :: "string \<Rightarrow> int \<Rightarrow> nat \<Rightarrow> json \<Rightarrow> chunk" where
  "json_chunk json_path total_items i item =
     (let flattened = flatten_json item [];
          item_text = py_join [CHR 0x0A] (map (\<lambda>(k, v). k @ '': '' @ str_scalar v) flattened)
      in \<lparr> text = item_text,
           metadata =
             [(''source'', JStr (basename json_path)),
              (''item_index'', JInt (int i)),
              (''total_items'', JInt total_items),
              (''format'', JStr ''json''),
              (''original_item'', item)] \<rparr>)"

definition extract_text_from_json ::
  "string \<Rightarrow> exception + json \<Rightarrow> (exception + chunk list) \<times> log_record list" where
  "extract_text_from_json json_path file =
     (let lg = [LogInfo (''Processing JSON: '' @ json_path)]
      in case file of
           Inl e \<Rightarrow> (Inl e, lg @ log_exception ''Error processing JSON: '' e)
         | Inr json_content \<Rightarrow>
             (let json_items = (case json_content of JList items \<Rightarrow> items | _ \<Rightarrow> [json_content]);
                  chunks = map (\<lambda>(i, item). json_chunk json_path (len json_items) i item)
                             (enumerate 0 json_items)
              in (Inr chunks,
                  lg @ [LogInfo (''Successfully extracted '' @ str_int (len chunks) @
                          '' chunks from JSON file'')])))"

section \<open>\<^verbatim>\<open>process_document\<close>\<close>

text \<open>
  The file as the module sees it: whether \<^verbatim>\<open>os.path.exists\<close> finds it, and what each of
  the three ways of reading it returns or raises.
\<close>

record source_file =
  on_disk :: bool
  pdf_reader :: "exception + (exception + string) list"
  read_text :: "exception + string"
  json_load :: "exception + json"

text \<open>
  One call: what it returns or raises, what it logged, and the path and records written
  to the output file, if any.
\<close>

record run =
  outcome :: "exception + chunk list"
  logged :: "log_record list"
  saved :: "(string \<times> chunk list) option"

text \<open>The \<^verbatim>\<open>except\<close> block of lines 298-301.\<close>

definition document_failed :: "log_record list \<Rightarrow> exception \<Rightarrow> run" where
  "document_failed lg e =
     \<lparr> outcome = Inl e,
       logged = lg @ log_exception ''Error processing document: '' e,
       saved = None \<rparr>"

text \<open>
  Lines 276-285: the extractor chosen by the extension. The warning of line 284 is
  logged before the text extractor runs.
\<close>

definition dispatch ::
  "string \<Rightarrow> string \<Rightarrow> source_file \<Rightarrow> (exception + chunk list) \<times> log_record list" where
  "dispatch file_ext file_path src =
     (if file_ext = ''.pdf'' then extract_text_from_pdf file_path (pdf_reader src)
      else if file_ext = ''.txt'' then extract_text_from_txt file_path (read_text src)
      else if file_ext = ''.json'' then extract_text_from_json file_path (json_load src)
      else
        (case extract_text_from_txt file_path (read_text src) of
           (r, lg) \<Rightarrow>
             (r, LogWarning (''Unsupported file extension: '' @ file_ext @
                               '', treating as text'') # lg)))"

text \<open>
  Lines 267-301. \<open>output_path\<close> is \<^verbatim>\<open>None\<close> or a string, and \<open>sink\<close> is the exception
  that creating the directory or writing the output file raises, if it raises one.
\<close>

definition process_document ::
  "string \<Rightarrow> string option \<Rightarrow> source_file \<Rightarrow> exception option \<Rightarrow> run" where
  "process_document file_path output_path src sink =
     (if \<not> on_disk src then
        document_failed [] (ValueError (''File does not exist: '' @ file_path))
      else
        (let file_ext = lower (splitext_ext file_path);
             lg = [LogInfo (''Processing file with extension: '' @ file_ext)]
         in case dispatch file_ext file_path src of
              (Inl e, lg') \<Rightarrow> document_failed (lg @ lg') e
            | (Inr extracted, lg') \<Rightarrow>
                (case split_into_chunks extracted 1000 200 of
                   Inl e \<Rightarrow> document_failed (lg @ lg') e
                 | Inr chunks \<Rightarrow>
                     (case output_path of
                        None \<Rightarrow> \<lparr> outcome = Inr chunks, logged = lg @ lg', saved = None \<rparr>
                      | Some p \<Rightarrow>
                          if p = [] then
                            \<lparr> outcome = Inr chunks, logged = lg @ lg', saved = None \<rparr>
                          else
                            (case sink of
                               Some e \<Rightarrow> document_failed (lg @ lg') e
                             | None \<Rightarrow>
                                 \<lparr> outcome = Inr chunks,
                                   logged = lg @ lg' @ [LogInfo (''Saved output to '' @ p)],
                                   saved = Some (p, chunks) \<rparr>)))))"

section \<open>Properties of \<^verbatim>\<open>split_into_chunks\<close>\<close>

subsection \<open>The loops\<close>

lemma len_nonneg: "0 \<le> len xs"
  by (simp add: len_def)

text \<open>
  The inner loop emits one sub-chunk for every index before the first one at which the
  \<^verbatim>\<open>break\<close> condition holds, numbered from the length of \<open>chunks\<close>.
\<close>

lemma window_loop_eq:
  "window_loop item cs ov is chunks =
     chunks @ map (\<lambda>(n, i). sub_chunk item cs ov i (int n + 1))
       (enumerate (length chunks)
          (takeWhile (\<lambda>i. \<not> (0 < i \<and> len (text item) < i + cs)) is))"
  by (induction "is" arbitrary: chunks) (simp_all add: len_def)

lemma split_loop_Cons:
  "split_loop (item # texts) cs ov results =
     (case split_item item cs ov of
        Inl e \<Rightarrow> Inl e
      | Inr cks \<Rightarrow> split_loop texts cs ov (results @ cks))"
  by (simp add: split_item_def split: sum.splits)

lemma split_loop_acc:
  "split_loop texts cs ov results =
     (case split_loop texts cs ov [] of Inl e \<Rightarrow> Inl e | Inr out \<Rightarrow> Inr (results @ out))"
proof (induction texts arbitrary: results)
  case Nil
  show ?case by simp
next
  case (Cons item texts)
  show ?case
  proof (cases "split_item item cs ov")
    case (Inl e)
    then show ?thesis by (simp add: split_loop_Cons del: split_loop.simps)
  next
    case (Inr cks)
    then show ?thesis
      using Cons.IH [of "results @ cks"] Cons.IH [of cks]
      by (simp add: split_loop_Cons del: split_loop.simps split: sum.splits)
  qed
qed

lemma split_into_chunks_Nil: "split_into_chunks [] cs ov = Inr []"
  by (simp add: split_into_chunks_def)

lemma split_into_chunks_Cons:
  "split_into_chunks (item # texts) cs ov =
     (case split_item item cs ov of
        Inl e \<Rightarrow> Inl e
      | Inr cks \<Rightarrow>
          (case split_into_chunks texts cs ov of
             Inl e \<Rightarrow> Inl e
           | Inr out \<Rightarrow> Inr (cks @ out)))"
  unfolding split_into_chunks_def
  by (subst split_loop_Cons, subst split_loop_acc) (simp split: sum.splits)

lemma split_into_chunks_append:
  "split_into_chunks (pre @ post) cs ov =
     (case split_into_chunks pre cs ov of
        Inl e \<Rightarrow> Inl e
      | Inr a \<Rightarrow>
          (case split_into_chunks post cs ov of
             Inl e \<Rightarrow> Inl e
           | Inr b \<Rightarrow> Inr (a @ b)))"
  by (induction pre)
     (simp_all add: split_into_chunks_Nil split_into_chunks_Cons split: sum.splits)

lemma split_into_chunks_single: "split_into_chunks [item] cs ov = split_item item cs ov"
  by (simp add: split_into_chunks_Cons split_into_chunks_Nil split: sum.splits)

text \<open>With a positive step \<^verbatim>\<open>range\<close> cannot raise, so the call returns.\<close>

lemma split_total:
  assumes "ov < cs"
  shows "\<exists>out. split_into_chunks texts cs ov = Inr out"
proof (induction texts)
  case Nil
  show ?case by (simp add: split_into_chunks_Nil)
next
  case (Cons item texts)
  have "\<exists>cks. split_item item cs ov = Inr cks"
    using assms by (simp add: split_item_def py_range_def)
  with Cons show ?case by (auto simp: split_into_chunks_Cons)
qed

subsection \<open>The windows of a long record\<close>

lemma takeWhile_map_upt:
  assumes "m \<le> R" and "\<forall>k<m. P (g k)" and "m < R \<longrightarrow> \<not> P (g m)"
  shows "takeWhile P (map g [0..<R]) = map g [0..<m]"
proof -
  have parts: "[0..<R] = [0..<m] @ [m..<R]"
    using assms(1) by (metis le_add_diff_inverse upt_add_eq_append zero_le)
  have tail: "takeWhile P (map g [m..<R]) = []"
  proof (cases "m < R")
    case True
    then show ?thesis using assms(3) by (simp add: upt_conv_Cons)
  next
    case False
    then show ?thesis by simp
  qed
  have "takeWhile P (map g [0..<m] @ map g [m..<R]) =
          map g [0..<m] @ takeWhile P (map g [m..<R])"
    by (rule takeWhile_append2) (use assms(2) in auto)
  then show ?thesis
    using tail by (simp add: parts)
qed

lemma enumerate_map_upt:
  "enumerate 0 (map g [0..<m]) = map (\<lambda>k. (k, g k)) [0..<m]"
  by (simp add: enumerate_eq_zip zip_map2 zip_same_conv_map)

text \<open>
  With \<open>q\<close> the quotient of \<open>L - cs\<close> by the step: the windows \<open>0, \<dots>, q\<close> fit into the
  text, window \<open>q + 1\<close> does not, and the range reaches it.
\<close>

lemma window_bounds:
  fixes L cs ov :: int
  assumes "cs < L" "0 \<le> ov" "ov < cs"
  defines "q \<equiv> (L - cs) div (cs - ov)"
  shows "0 \<le> q"
    and "\<And>k. k \<le> q \<Longrightarrow> 0 \<le> k \<Longrightarrow> k * (cs - ov) + cs \<le> L"
    and "L < (q + 1) * (cs - ov) + cs"
    and "0 < (q + 1) * (cs - ov)"
    and "q + 1 \<le> (L + (cs - ov) - 1) div (cs - ov)"
proof -
  have step: "0 < cs - ov" using assms by simp
  show q0: "0 \<le> q" unfolding q_def using assms by (simp add: pos_imp_zdiv_nonneg_iff)
  have eq: "L - cs = q * (cs - ov) + (L - cs) mod (cs - ov)"
    unfolding q_def by (simp only: div_mult_mod_eq)
  have m0: "0 \<le> (L - cs) mod (cs - ov)" and m1: "(L - cs) mod (cs - ov) < cs - ov"
    using step by simp_all
  have lo: "q * (cs - ov) \<le> L - cs" using eq m0 by linarith
  have hi: "L - cs < (q + 1) * (cs - ov)"
    using eq m1 by (simp add: algebra_simps)
  show "\<And>k. k \<le> q \<Longrightarrow> 0 \<le> k \<Longrightarrow> k * (cs - ov) + cs \<le> L"
  proof -
    fix k assume "k \<le> q" "0 \<le> k"
    then have "k * (cs - ov) \<le> q * (cs - ov)" using step by (simp add: mult_right_mono)
    with lo show "k * (cs - ov) + cs \<le> L" by simp
  qed
  show "L < (q + 1) * (cs - ov) + cs" using hi by simp
  show "0 < (q + 1) * (cs - ov)" using q0 step by simp
  have "(q + 1) * (cs - ov) \<le> L + (cs - ov) - 1"
    using lo assms by (simp add: algebra_simps)
  then have "((q + 1) * (cs - ov)) div (cs - ov) \<le> (L + (cs - ov) - 1) div (cs - ov)"
    using step by (rule zdiv_mono1)
  then show "q + 1 \<le> (L + (cs - ov) - 1) div (cs - ov)"
    using step by simp
qed

lemma split_item_windows:
  assumes "cs < len (text item)" "0 \<le> ov" "ov < cs"
  shows "split_item item cs ov =
           Inr (map (\<lambda>k. sub_chunk item cs ov (int k * (cs - ov)) (int k + 1))
                  [0..<Suc (nat ((len (text item) - cs) div (cs - ov)))])"
proof -
  define L where "L = len (text item)"
  define q where "q = (L - cs) div (cs - ov)"
  define R where "R = nat ((L + (cs - ov) - 1) div (cs - ov))"
  define g where "g = (\<lambda>k. int k * (cs - ov))"
  define keep where "keep = (\<lambda>i. \<not> (0 < i \<and> L < i + cs))"
  note b = window_bounds [OF assms [folded L_def], folded q_def]
  have mR: "Suc (nat q) \<le> R"
    using b(1) b(5) by (simp add: R_def)
  have below: "\<forall>k<Suc (nat q). keep (g k)"
  proof (intro allI impI)
    fix k assume "k < Suc (nat q)"
    then have "int k \<le> q" using b(1) by linarith
    then have "int k * (cs - ov) + cs \<le> L" using b(2) by simp
    then show "keep (g k)" by (simp add: keep_def g_def)
  qed
  have "int (Suc (nat q)) = q + 1"
    using b(1) by simp
  then have at: "\<not> keep (g (Suc (nat q)))"
    using b(3) b(4) by (simp only: keep_def g_def) simp
  have tw: "takeWhile keep (map g [0..<R]) = map g [0..<Suc (nat q)]"
    using mR below at by (intro takeWhile_map_upt) simp_all
  have rng: "py_range 0 L (cs - ov) = Inr (map g [0..<R])"
    using assms by (simp add: py_range_def g_def R_def)
  have "split_item item cs ov = Inr (window_loop item cs ov (map g [0..<R]) [])"
    using assms(1) rng by (simp add: split_item_def L_def)
  also have "window_loop item cs ov (map g [0..<R]) [] =
      map (\<lambda>(n, i). sub_chunk item cs ov i (int n + 1)) (enumerate 0 (map g [0..<Suc (nat q)]))"
    using tw by (simp add: window_loop_eq keep_def L_def)
  also have "\<dots> = map (\<lambda>k. sub_chunk item cs ov (g k) (int k + 1)) [0..<Suc (nat q)]"
    by (simp only: enumerate_map_upt map_map comp_def prod.case)
  finally show ?thesis by (simp add: g_def q_def L_def)
qed

lemma py_slice_window:
  assumes "0 \<le> i" "0 \<le> cs" "i + cs \<le> len xs"
  shows "py_slice xs i (min (i + cs) (len xs)) = take (nat cs) (drop (nat i) xs)"
    and "py_slice xs i (i + cs) = take (nat cs) (drop (nat i) xs)"
    and "len (take (nat cs) (drop (nat i) xs)) = cs"
proof -
  have n: "nat i + nat cs \<le> length xs"
    using assms unfolding len_def by linarith
  show "py_slice xs i (min (i + cs) (len xs)) = take (nat cs) (drop (nat i) xs)"
    using assms by (simp add: py_slice_def Let_def len_def min_def)
  show "py_slice xs i (i + cs) = take (nat cs) (drop (nat i) xs)"
    using assms by (simp add: py_slice_def Let_def len_def min_def)
  show "len (take (nat cs) (drop (nat i) xs)) = cs"
  proof -
    have "length (take (nat cs) (drop (nat i) xs)) = nat cs"
      using n by simp
    then show ?thesis using assms(2) by (simp add: len_def)
  qed
qed

lemma sub_chunk_text:
  "text (sub_chunk item cs ov i n) = py_slice (text item) i (min (i + cs) (len (text item)))"
  by (simp add: sub_chunk_def)

text \<open>
  Claim C1. For a record whose text is longer than \<open>chunk_size\<close>, with
  \<open>0 \<le> overlap < chunk_size\<close>, wherever the record stands in the input: the call returns,
  and between the output for the records before it and the output for the records after
  it stand the sub-chunks \<open>out\<close> of this record. They are the windows that start at
  \<open>0\<close>, \<open>chunk_size - overlap\<close>, \<open>2 * (chunk_size - overlap)\<close>, ... and fit into the text
  (window \<open>k\<close> is emitted exactly when \<open>k * (chunk_size - overlap) + chunk_size\<close> is at
  most the length of the text); every one is the slice of that window and has length
  exactly \<open>chunk_size\<close>; the last \<open>overlap\<close> characters of a sub-chunk are the first
  \<open>overlap\<close> characters of the next; and a window that starts after \<open>0\<close> and would end
  beyond the text is not emitted at all.
\<close>

theorem C1_sliding_windows:
  assumes long: "chunk_size < len (text item)"
    and ov0: "0 \<le> overlap" and ov1: "overlap < chunk_size"
  shows "\<exists>a out b.
      split_into_chunks pre chunk_size overlap = Inr a \<and>
      split_into_chunks post chunk_size overlap = Inr b \<and>
      split_into_chunks (pre @ item # post) chunk_size overlap = Inr (a @ out @ b) \<and>
      (\<forall>k. k < length out \<longleftrightarrow>
            int k * (chunk_size - overlap) + chunk_size \<le> len (text item)) \<and>
      (\<forall>k<length out.
          text (out ! k) =
            py_slice (text item) (int k * (chunk_size - overlap))
              (int k * (chunk_size - overlap) + chunk_size) \<and>
          len (text (out ! k)) = chunk_size) \<and>
      (\<forall>k. Suc k < length out \<longrightarrow>
          drop (nat (chunk_size - overlap)) (text (out ! k)) =
            take (nat overlap) (text (out ! Suc k)) \<and>
          len (take (nat overlap) (text (out ! Suc k))) = overlap) \<and>
      (\<forall>k. 0 < int k * (chunk_size - overlap) \<and>
            len (text item) < int k * (chunk_size - overlap) + chunk_size \<longrightarrow>
            \<not> k < length out)"
proof -
  define L where "L = len (text item)"
  define step where "step = chunk_size - overlap"
  define q where "q = (L - chunk_size) div step"
  define f where "f = (\<lambda>k. sub_chunk item chunk_size overlap (int k * step) (int k + 1))"
  define out where "out = map f [0..<Suc (nat q)]"
  note b = window_bounds [OF long [folded L_def] ov0 ov1, folded step_def, folded q_def]
  have step_pos: "0 < step" and cs_pos: "0 \<le> chunk_size"
    using ov0 ov1 by (simp_all add: step_def)
  obtain a where a: "split_into_chunks pre chunk_size overlap = Inr a"
    using split_total [OF ov1] by blast
  obtain b' where b': "split_into_chunks post chunk_size overlap = Inr b'"
    using split_total [OF ov1] by blast
  have item: "split_item item chunk_size overlap = Inr out"
    using split_item_windows [OF long ov0 ov1]
    by (simp add: out_def f_def step_def q_def L_def)
  have whole: "split_into_chunks (pre @ item # post) chunk_size overlap = Inr (a @ out @ b')"
    using a b' item by (simp add: split_into_chunks_append split_into_chunks_Cons)
  have len_out: "length out = Suc (nat q)"
    by (simp add: out_def)
  have full: "k < length out \<longleftrightarrow> int k * step + chunk_size \<le> L" for k
  proof
    assume "k < length out"
    then have "int k \<le> q" using b(1) len_out by linarith
    then show "int k * step + chunk_size \<le> L" using b(2) by simp
  next
    assume fit: "int k * step + chunk_size \<le> L"
    show "k < length out"
    proof (rule ccontr)
      assume "\<not> k < length out"
      then have "q + 1 \<le> int k" using b(1) len_out by linarith
      then have "(q + 1) * step \<le> int k * step"
        using step_pos by (simp add: mult_right_mono)
      with b(3) fit show False by linarith
    qed
  qed
  have wtext: "text (out ! k) = take (nat chunk_size) (drop (nat (int k * step)) (text item))"
    and slice: "text (out ! k) = py_slice (text item) (int k * step) (int k * step + chunk_size)"
    and size: "len (text (out ! k)) = chunk_size"
    if "k < length out" for k
  proof -
    have fit: "int k * step + chunk_size \<le> len (text item)"
      using that full by (simp add: L_def)
    have k0: "0 \<le> int k * step" using step_pos by simp
    have nth: "out ! k = f k"
      using that unfolding out_def by (simp del: upt_Suc)
    show t: "text (out ! k) = take (nat chunk_size) (drop (nat (int k * step)) (text item))"
      using py_slice_window(1) [OF k0 cs_pos fit] by (simp add: nth f_def sub_chunk_text)
    show "text (out ! k) = py_slice (text item) (int k * step) (int k * step + chunk_size)"
      using py_slice_window(2) [OF k0 cs_pos fit] t by simp
    show "len (text (out ! k)) = chunk_size"
      using py_slice_window(3) [OF k0 cs_pos fit] t by simp
  qed
  have lap: "drop (nat step) (text (out ! k)) = take (nat overlap) (text (out ! Suc k))"
    and lap_len: "len (take (nat overlap) (text (out ! Suc k))) = overlap"
    if "Suc k < length out" for k
  proof -
    have k1: "k < length out" using that by simp
    have pos: "nat (int (Suc k) * step) = nat (int k * step) + nat step"
      using step_pos by (simp add: nat_add_distrib algebra_simps)
    have ov_eq: "nat overlap = nat chunk_size - nat step"
      using ov0 ov1 by (simp add: step_def)
    show "drop (nat step) (text (out ! k)) = take (nat overlap) (text (out ! Suc k))"
    proof -
      have t1: "text (out ! Suc k) =
          take (nat chunk_size) (drop (nat (int k * step) + nat step) (text item))"
        using wtext [OF that] by (simp only: pos)
      show ?thesis
        by (simp add: wtext [OF k1] t1 ov_eq drop_take add.commute)
    qed
    have "len (text (out ! Suc k)) = chunk_size" using size [OF that] .
    then show "len (take (nat overlap) (text (out ! Suc k))) = overlap"
      using ov0 ov1 by (simp add: len_def min_def)
  qed
  have dropped: "\<not> k < length out"
    if "0 < int k * step \<and> L < int k * step + chunk_size" for k
    using that full by simp
  show ?thesis
    using a b' whole full slice size lap lap_len dropped
    unfolding step_def L_def by blast
qed

text \<open>
  A text of 8 characters with \<open>chunk_size = 4\<close> and \<open>overlap = 1\<close>: the windows start at
  0, 3 and 6; the first two are emitted (\<open>abcd\<close>, \<open>defg\<close>, sharing \<open>d\<close>) and the third,
  which would end at 10, is dropped.
\<close>

theorem C1_sliding_windows_witness:
  "(4::int) < len (text \<lparr>text = ''abcdefgh'', metadata = []\<rparr>) \<and> (0::int) \<le> 1 \<and> (1::int) < 4 \<and>
   map text (projr (split_into_chunks [\<lparr>text = ''abcdefgh'', metadata = []\<rparr>] 4 1)) =
     [''abcd'', ''defg''] \<and>
   (\<exists>a out b.
      split_into_chunks [] 4 1 = Inr a \<and>
      split_into_chunks [] 4 1 = Inr b \<and>
      split_into_chunks ([] @ \<lparr>text = ''abcdefgh'', metadata = []\<rparr> # []) 4 1 =
        Inr (a @ out @ b) \<and>
      (\<forall>k. k < length out \<longleftrightarrow>
            int k * (4 - 1) + 4 \<le> len (text \<lparr>text = ''abcdefgh'', metadata = []\<rparr>)) \<and>
      (\<forall>k<length out.
          text (out ! k) =
            py_slice (text \<lparr>text = ''abcdefgh'', metadata = []\<rparr>) (int k * (4 - 1))
              (int k * (4 - 1) + 4) \<and>
          len (text (out ! k)) = 4) \<and>
      (\<forall>k. Suc k < length out \<longrightarrow>
          drop (nat (4 - 1)) (text (out ! k)) = take (nat 1) (text (out ! Suc k)) \<and>
          len (take (nat 1) (text (out ! Suc k))) = 1) \<and>
      (\<forall>k. 0 < int k * (4 - 1) \<and>
            len (text \<lparr>text = ''abcdefgh'', metadata = []\<rparr>) < int k * (4 - 1) + 4 \<longrightarrow>
            \<not> k < length out))"
proof -
  have h1: "(4::int) < len (text \<lparr>text = ''abcdefgh'', metadata = []\<rparr>)"
    by (simp add: len_def)
  have h2: "(0::int) \<le> 1" and h3: "(1::int) < 4" by simp_all
  have ex: "map text (projr (split_into_chunks [\<lparr>text = ''abcdefgh'', metadata = []\<rparr>] 4 1)) =
     [''abcd'', ''defg'']"
    by code_simp
  show ?thesis
    by (intro conjI h1 h2 h3 ex C1_sliding_windows [OF h1 h2 h3])
qed

subsection \<open>Short records, the unchecked overlap, and the chunk total\<close>

text \<open>
  Claim C3. A record whose text is not longer than \<open>chunk_size\<close> passes through
  unchanged: alone it is the whole output, and anywhere in a list the record itself (same
  text, same metadata, no key added) stands between the output for the records before it
  and the output for the records after it.
\<close>

theorem C3_short_record_unchanged:
  assumes "len (text item) \<le> chunk_size"
  shows "split_into_chunks [item] chunk_size overlap = Inr [item] \<and>
         split_into_chunks (pre @ item # post) chunk_size overlap =
           (case split_into_chunks pre chunk_size overlap of
              Inl e \<Rightarrow> Inl e
            | Inr a \<Rightarrow>
                (case split_into_chunks post chunk_size overlap of
                   Inl e \<Rightarrow> Inl e
                 | Inr b \<Rightarrow> Inr (a @ item # b)))"
proof -
  have one: "split_item item chunk_size overlap = Inr [item]"
    using assms by (simp add: split_item_def)
  have single: "split_into_chunks [item] chunk_size overlap = Inr [item]"
    using one by (simp add: split_into_chunks_single)
  have tail: "split_into_chunks (item # post) chunk_size overlap =
      (case split_into_chunks post chunk_size overlap of
         Inl e \<Rightarrow> Inl e
       | Inr b \<Rightarrow> Inr (item # b))"
    using one by (simp add: split_into_chunks_Cons split: sum.splits)
  have "split_into_chunks (pre @ item # post) chunk_size overlap =
      (case split_into_chunks pre chunk_size overlap of
         Inl e \<Rightarrow> Inl e
       | Inr a \<Rightarrow>
           (case split_into_chunks (item # post) chunk_size overlap of
              Inl e \<Rightarrow> Inl e
            | Inr b \<Rightarrow> Inr (a @ b)))"
    by (rule split_into_chunks_append)
  also have "\<dots> =
      (case split_into_chunks pre chunk_size overlap of
         Inl e \<Rightarrow> Inl e
       | Inr a \<Rightarrow>
           (case split_into_chunks post chunk_size overlap of
              Inl e \<Rightarrow> Inl e
            | Inr b \<Rightarrow> Inr (a @ item # b)))"
    by (simp only: tail split: sum.splits) simp
  finally show ?thesis using single by simp
qed

text \<open>
  A record of three characters with \<open>chunk_size = 3\<close>, alone and after a record that is
  split.
\<close>

theorem C3_short_record_unchanged_witness:
  "len (text \<lparr>text = ''abc'', metadata = [(''source'', JStr ''a.txt'')]\<rparr>) \<le> 3 \<and>
   split_into_chunks [\<lparr>text = ''abc'', metadata = [(''source'', JStr ''a.txt'')]\<rparr>] 3 1 =
     Inr [\<lparr>text = ''abc'', metadata = [(''source'', JStr ''a.txt'')]\<rparr>] \<and>
   split_into_chunks
     ([\<lparr>text = ''abcdefgh'', metadata = []\<rparr>] @
      \<lparr>text = ''abc'', metadata = [(''source'', JStr ''a.txt'')]\<rparr> # []) 3 1 =
     Inr [\<lparr>text = ''abc'', metadata = [(''chunk'', JInt 1), (''total_chunks_from_original'', JInt 5), (''original_page'', JInt 1)]\<rparr>,
          \<lparr>text = ''cde'', metadata = [(''chunk'', JInt 2), (''total_chunks_from_original'', JInt 5), (''original_page'', JInt 1)]\<rparr>,
          \<lparr>text = ''efg'', metadata = [(''chunk'', JInt 3), (''total_chunks_from_original'', JInt 5), (''original_page'', JInt 1)]\<rparr>,
          \<lparr>text = ''abc'', metadata = [(''source'', JStr ''a.txt'')]\<rparr>]"
proof -
  have h: "len (text \<lparr>text = ''abc'', metadata = [(''source'', JStr ''a.txt'')]\<rparr>) \<le> 3"
    by (simp add: len_def)
  have pre: "split_into_chunks [\<lparr>text = ''abcdefgh'', metadata = []\<rparr>] 3 1 =
     Inr [\<lparr>text = ''abc'', metadata = [(''chunk'', JInt 1), (''total_chunks_from_original'', JInt 5), (''original_page'', JInt 1)]\<rparr>,
          \<lparr>text = ''cde'', metadata = [(''chunk'', JInt 2), (''total_chunks_from_original'', JInt 5), (''original_page'', JInt 1)]\<rparr>,
          \<lparr>text = ''efg'', metadata = [(''chunk'', JInt 3), (''total_chunks_from_original'', JInt 5), (''original_page'', JInt 1)]\<rparr>]"
    by code_simp
  show ?thesis
    using h C3_short_record_unchanged [OF h, of 1 "[\<lparr>text = ''abcdefgh'', metadata = []\<rparr>]" "[]"]
    by (simp add: pre split_into_chunks_Nil)
qed

text \<open>
  A negative step from \<open>0\<close> towards a length gives the empty range, so a record longer
  than \<open>chunk_size\<close> produces nothing when \<open>overlap\<close> exceeds \<open>chunk_size\<close>.
\<close>

lemma py_range_negative_step:
  assumes "step < 0" "0 \<le> stop"
  shows "py_range 0 stop step = Inr []"
proof -
  have "(0 - stop - step - 1) div (- step) \<le> (- step - 1) div (- step)"
    by (rule zdiv_mono1) (use assms in simp_all)
  moreover have "(- step - 1) div (- step) = 0"
    using assms by (simp add: div_pos_pos_trivial)
  ultimately have "(0 - stop - step - 1) div (- step) \<le> 0" by simp
  then show ?thesis using assms by (simp add: py_range_def)
qed

lemma split_item_unchecked:
  assumes "chunk_size \<le> overlap"
  shows "split_item item chunk_size overlap =
     (if len (text item) \<le> chunk_size then Inr [item]
      else if chunk_size = overlap then Inl (ValueError ''range() arg 3 must not be zero'')
      else Inr [])"
  using assms py_range_negative_step [of "chunk_size - overlap" "len (text item)"]
  by (auto simp: split_item_def py_range_def len_nonneg)

text \<open>
  Claim C4, as amended. \<^verbatim>\<open>split_into_chunks\<close> does not check \<open>overlap < chunk_size\<close>.
  With \<open>overlap = chunk_size\<close> the call raises the \<^verbatim>\<open>ValueError\<close> of a zero range step
  exactly when some record is longer than \<open>chunk_size\<close>, and returns the records
  unchanged otherwise; with \<open>overlap > chunk_size\<close> it always returns, every record
  longer than \<open>chunk_size\<close> is dropped and the others pass through.
\<close>

theorem C4_overlap_not_validated:
  assumes "chunk_size \<le> overlap"
  shows "split_into_chunks texts chunk_size overlap =
     (if chunk_size = overlap \<and> list_ex (\<lambda>item. chunk_size < len (text item)) texts
      then Inl (ValueError ''range() arg 3 must not be zero'')
      else Inr (filter (\<lambda>item. len (text item) \<le> chunk_size) texts))"
proof (induction texts)
  case Nil
  show ?case by (simp add: split_into_chunks_Nil)
next
  case (Cons item texts)
  show ?case
  proof (cases "chunk_size = overlap")
    case True
    then show ?thesis
      using Cons.IH
      by (simp add: split_into_chunks_Cons split_item_unchecked not_le split: sum.splits)
  next
    case False
    then show ?thesis
      using Cons.IH assms
      by (simp add: split_into_chunks_Cons split_item_unchecked not_le split: sum.splits)
  qed
qed

text \<open>
  Against claim C4 as stated: with \<open>chunk_size = 2\<close> and \<open>overlap = 5\<close> the call returns
  normally and the three-character record is gone from the output; with
  \<open>overlap = chunk_size = 2\<close> and a short record the call returns normally as well.
\<close>

theorem C4_overlap_not_validated_counterexample:
  "split_into_chunks [\<lparr>text = ''abc'', metadata = []\<rparr>, \<lparr>text = ''z'', metadata = []\<rparr>] 2 5 =
     Inr [\<lparr>text = ''z'', metadata = []\<rparr>] \<and>
   split_into_chunks [\<lparr>text = ''ab'', metadata = []\<rparr>] 2 2 = Inr [\<lparr>text = ''ab'', metadata = []\<rparr>]"
  by code_simp

text \<open>Both cases of the amended claim on two records.\<close>

theorem C4_overlap_not_validated_witness:
  "(2::int) \<le> 2 \<and>
   split_into_chunks [\<lparr>text = ''ab'', metadata = []\<rparr>, \<lparr>text = ''abc'', metadata = []\<rparr>] 2 2 =
     Inl (ValueError ''range() arg 3 must not be zero'') \<and>
   (2::int) \<le> 5 \<and>
   split_into_chunks [\<lparr>text = ''ab'', metadata = []\<rparr>, \<lparr>text = ''abc'', metadata = []\<rparr>] 2 5 =
     Inr [\<lparr>text = ''ab'', metadata = []\<rparr>]"
  using C4_overlap_not_validated [of 2 2 "[\<lparr>text = ''ab'', metadata = []\<rparr>, \<lparr>text = ''abc'', metadata = []\<rparr>]"]
        C4_overlap_not_validated [of 2 5 "[\<lparr>text = ''ab'', metadata = []\<rparr>, \<lparr>text = ''abc'', metadata = []\<rparr>]"]
  by (simp add: len_def)

text \<open>
  What line 245 stores: the quotient of \<open>len(text) + chunk_size - 1\<close> by the step.
\<close>

lemma total_chunks_from_original_value:
  "dict_get (metadata (sub_chunk item cs ov i n)) ''total_chunks_from_original'' d =
     JInt ((len (text item) + cs - 1) div (cs - ov))"
  by (simp add: sub_chunk_def dict_get_def dict_set_def update_conv')

text \<open>
  Claim C2 at the failing input. A text of 2400 characters under the defaults
  (\<open>chunk_size = 1000\<close>, \<open>overlap = 200\<close>) gives two sub-chunks, both with
  \<^verbatim>\<open>total_chunks_from_original\<close> equal to 4, while the ceiling of \<open>2400 / 800\<close> is 3:
  line 245 adds \<open>chunk_size - 1\<close> where the ceiling of a division by the step adds the
  step minus one.
\<close>

theorem C2_total_chunks_failing_input:
  "split_into_chunks [\<lparr>text = replicate 2400 (CHR ''x''), metadata = []\<rparr>] 1000 200 =
     Inr [\<lparr>text = replicate 1000 (CHR ''x''),
            metadata = [(''chunk'', JInt 1), (''total_chunks_from_original'', JInt 4),
                        (''original_page'', JInt 1)]\<rparr>,
          \<lparr>text = replicate 1000 (CHR ''x''),
            metadata = [(''chunk'', JInt 2), (''total_chunks_from_original'', JInt 4),
                        (''original_page'', JInt 1)]\<rparr>] \<and>
   ceil_div (len (replicate 2400 (CHR ''x''))) (1000 - 200) = 3"
proof -
  let ?item = "\<lparr>text = replicate 2400 (CHR ''x''), metadata = []\<rparr>"
  have L: "len (text ?item) = 2400" by (simp add: len_def)
  have "split_item ?item 1000 200 =
      Inr (map (\<lambda>k. sub_chunk ?item 1000 200 (int k * (1000 - 200)) (int k + 1))
                  [0..<Suc (nat ((len (text ?item) - 1000) div (1000 - 200)))])"
    by (rule split_item_windows) (simp_all add: len_def)
  also have "[0..<Suc (nat ((len (text ?item) - 1000) div (1000 - 200)))] = [0, 1]"
    by (simp add: len_def upt_conv_Cons)
  finally have "split_item ?item 1000 200 =
      Inr [sub_chunk ?item 1000 200 0 1, sub_chunk ?item 1000 200 800 2]"
    by simp
  then show ?thesis
    by (simp add: split_into_chunks_single sub_chunk_def py_slice_def len_def dict_set_def
          dict_get_def ceil_div_def)
qed

section \<open>Properties of the extractors and of \<^verbatim>\<open>process_document\<close>\<close>

subsection \<open>Slabs of the text extractor\<close>

lemma split_all_short:
  assumes "\<forall>c\<in>set texts. len (text c) \<le> cs"
  shows "split_into_chunks texts cs ov = Inr texts"
  using assms
  by (induction texts) (simp_all add: split_into_chunks_Nil split_into_chunks_Cons split_item_def)

lemma py_slice_slab:
  assumes "0 \<le> i" "0 \<le> n"
  shows "len (py_slice xs i (i + n)) \<le> n"
    and "i < len xs \<Longrightarrow> 0 < n \<Longrightarrow> py_slice xs i (i + n) \<noteq> []"
  using assms by (auto simp: py_slice_def Let_def len_def min_def)

lemma py_range_nonneg:
  assumes "py_range 0 stop step = Inr indices" "0 < step" "i \<in> set indices"
  shows "0 \<le> i" and "i < stop"
proof -
  obtain k where k: "k < nat ((stop + step - 1) div step)" and i: "i = int k * step"
    using assms by (auto simp: py_range_def)
  show "0 \<le> i" using i assms(2) by simp
  have "int k + 1 \<le> (stop + step - 1) div step" using k by linarith
  then have "(int k + 1) * step \<le> ((stop + step - 1) div step) * step"
    using assms(2) by (simp add: mult_right_mono)
  also have "\<dots> \<le> stop + step - 1"
  proof -
    have "stop + step - 1 =
        ((stop + step - 1) div step) * step + (stop + step - 1) mod step"
      by (simp only: div_mult_mod_eq)
    moreover have "0 \<le> (stop + step - 1) mod step"
      using assms(2) by simp
    ultimately show ?thesis by linarith
  qed
  finally show "i < stop" using i by (simp add: algebra_simps)
qed

lemma extract_text_from_txt_chunks:
  assumes "extract_text_from_txt txt_path (Inr content) = (Inr chunks, lg)"
    and "c \<in> set chunks"
  shows "\<exists>i. 0 \<le> i \<and> i < len content \<and> c = txt_chunk txt_path content 1000 i"
proof -
  have nonblank: "\<not> (content = [] \<or> len (strip content) = 0)"
    using assms by (auto simp: extract_text_from_txt_def)
  obtain indices where r: "py_range 0 (len content) 1000 = Inr indices"
    by (simp add: py_range_def)
  have "chunks = map (txt_chunk txt_path content 1000) indices"
    using assms(1) nonblank r by (simp add: extract_text_from_txt_def Let_def)
  then obtain i where "i \<in> set indices" "c = txt_chunk txt_path content 1000 i"
    using assms(2) by auto
  then show ?thesis
    using py_range_nonneg [OF r] by auto
qed

lemma txt_chunk_simps:
  "text (txt_chunk p content n i) = py_slice content i (i + n)"
  "map fst (metadata (txt_chunk p content n i)) = [''source'', ''chunk'', ''total_chunks'', ''format'']"
  "map_of (metadata (txt_chunk p content n i)) ''format'' = Some (JStr ''txt'')"
  by (simp_all add: txt_chunk_def)

lemma extract_text_from_txt_log:
  "\<exists>lg. snd (extract_text_from_txt p src) = LogInfo (''Processing TXT: '' @ p) # lg"
  by (cases src) (auto simp: extract_text_from_txt_def py_range_def Let_def)

text \<open>
  The records of the text extractor are never longer than 1000 characters, carry exactly
  the four keys of lines 101-106, and the re-chunker with its defaults returns them as
  they are.
\<close>

lemma txt_records:
  assumes "extract_text_from_txt txt_path src = (Inr chunks, lg)"
  shows "split_into_chunks chunks 1000 200 = Inr chunks"
    and "\<forall>c\<in>set chunks.
            len (text c) \<le> 1000 \<and>
            map fst (metadata c) = [''source'', ''chunk'', ''total_chunks'', ''format''] \<and>
            map_of (metadata c) ''format'' = Some (JStr ''txt'')"
proof -
  obtain content where src: "src = Inr content"
    using assms by (cases src) (auto simp: extract_text_from_txt_def)
  show each: "\<forall>c\<in>set chunks.
            len (text c) \<le> 1000 \<and>
            map fst (metadata c) = [''source'', ''chunk'', ''total_chunks'', ''format''] \<and>
            map_of (metadata c) ''format'' = Some (JStr ''txt'')"
  proof
    fix c assume "c \<in> set chunks"
    then obtain i where "0 \<le> i" "c = txt_chunk txt_path content 1000 i"
      using extract_text_from_txt_chunks [OF assms [unfolded src]] by blast
    then show "len (text c) \<le> 1000 \<and>
            map fst (metadata c) = [''source'', ''chunk'', ''total_chunks'', ''format''] \<and>
            map_of (metadata c) ''format'' = Some (JStr ''txt'')"
      using py_slice_slab(1) [of i 1000 content] by (simp add: txt_chunk_simps)
  qed
  then show "split_into_chunks chunks 1000 200 = Inr chunks"
    by (intro split_all_short) simp
qed

text \<open>
  Claim C10. Under the defaults of \<^verbatim>\<open>process_document\<close> (\<open>chunk_size = 1000\<close>,
  \<open>overlap = 200\<close>) the re-chunker returns the records of the text extractor unchanged:
  every slab has at most 1000 characters, so none is split, the metadata keys stay
  \<open>source\<close>, \<open>chunk\<close>, \<open>total_chunks\<close>, \<open>format\<close> (no \<open>total_chunks_from_original\<close>, no
  \<open>original_page\<close>, \<open>chunk\<close> not overwritten), and \<^verbatim>\<open>process_document\<close> returns exactly
  the extractor's records for a file that goes to the text extractor.
\<close>

theorem C10_txt_records_never_split:
  assumes "extract_text_from_txt txt_path (Inr content) = (Inr chunks, lg)"
  shows "split_into_chunks chunks 1000 200 = Inr chunks \<and>
         (\<forall>c\<in>set chunks.
            len (text c) \<le> 1000 \<and>
            map fst (metadata c) = [''source'', ''chunk'', ''total_chunks'', ''format'']) \<and>
         (on_disk src \<and> read_text src = Inr content \<and>
          lower (splitext_ext txt_path) \<noteq> ''.pdf'' \<and> lower (splitext_ext txt_path) \<noteq> ''.json''
            \<longrightarrow> outcome (process_document txt_path None src sink) = Inr chunks)"
proof -
  note recs = txt_records [OF assms]
  have "outcome (process_document txt_path None src sink) = Inr chunks"
    if "on_disk src" "read_text src = Inr content"
      "lower (splitext_ext txt_path) \<noteq> ''.pdf''" "lower (splitext_ext txt_path) \<noteq> ''.json''"
    using that assms recs(1)
    by (simp add: process_document_def dispatch_def Let_def)
  then show ?thesis using recs by blast
qed

text \<open>
  A five-character file \<open>docs/notes.txt\<close>: one slab, returned unchanged by the
  re-chunker and by \<^verbatim>\<open>process_document\<close>.
\<close>

theorem C10_txt_records_never_split_witness:
  "extract_text_from_txt ''docs/notes.txt'' (Inr ''hello'') =
     (Inr [\<lparr>text = ''hello'',
             metadata = [(''source'', JStr ''notes.txt''), (''chunk'', JInt 1),
                         (''total_chunks'', JInt 1), (''format'', JStr ''txt'')]\<rparr>],
      [LogInfo ''Processing TXT: docs/notes.txt'',
       LogInfo ''Successfully extracted 1 chunks from text file'']) \<and>
   split_into_chunks
     [\<lparr>text = ''hello'',
        metadata = [(''source'', JStr ''notes.txt''), (''chunk'', JInt 1),
                    (''total_chunks'', JInt 1), (''format'', JStr ''txt'')]\<rparr>] 1000 200 =
     Inr [\<lparr>text = ''hello'',
            metadata = [(''source'', JStr ''notes.txt''), (''chunk'', JInt 1),
                        (''total_chunks'', JInt 1), (''format'', JStr ''txt'')]\<rparr>] \<and>
   outcome (process_document ''docs/notes.txt'' None
              \<lparr>on_disk = True, pdf_reader = Inl (PdfReadError ''not a PDF''),
                read_text = Inr ''hello'', json_load = Inl (JSONDecodeError ''not JSON'')\<rparr> None) =
     Inr [\<lparr>text = ''hello'',
            metadata = [(''source'', JStr ''notes.txt''), (''chunk'', JInt 1),
                        (''total_chunks'', JInt 1), (''format'', JStr ''txt'')]\<rparr>]"
proof -
  have h: "extract_text_from_txt ''docs/notes.txt'' (Inr ''hello'') =
     (Inr [\<lparr>text = ''hello'',
             metadata = [(''source'', JStr ''notes.txt''), (''chunk'', JInt 1),
                         (''total_chunks'', JInt 1), (''format'', JStr ''txt'')]\<rparr>],
      [LogInfo ''Processing TXT: docs/notes.txt'',
       LogInfo ''Successfully extracted 1 chunks from text file''])"
    by code_simp
  have ext: "lower (splitext_ext ''docs/notes.txt'') = ''.txt''"
    by code_simp
  show ?thesis
    using h C10_txt_records_never_split [OF h,
        of "\<lparr>on_disk = True, pdf_reader = Inl (PdfReadError ''not a PDF''),
             read_text = Inr ''hello'', json_load = Inl (JSONDecodeError ''not JSON'')\<rparr>" None]
    by (simp add: ext)
qed

subsection \<open>Where blank text is filtered\<close>

lemma pdf_loop_failed:
  "pdf_loop pdf_path num_pages (Inl e # pages) i results lg = (Inl e, lg)"
  by simp

lemma pdf_loop_blank:
  "page_text = [] \<or> len (strip page_text) = 0 \<Longrightarrow>
   pdf_loop pdf_path num_pages (Inr page_text # pages) i results lg =
     pdf_loop pdf_path num_pages pages (i + 1) results
       (lg @ [LogWarning (''Page '' @ str_int (i + 1) @ '' has no extractable text'')])"
  by (simp add: Let_def)

lemma pdf_loop_page:
  "\<not> (page_text = [] \<or> len (strip page_text) = 0) \<Longrightarrow>
   pdf_loop pdf_path num_pages (Inr page_text # pages) i results lg =
     pdf_loop pdf_path num_pages pages (i + 1)
       (results @
          [\<lparr> text = page_text,
              metadata =
                [(''source'', JStr (basename pdf_path)),
                 (''page'', JInt (i + 1)),
                 (''total_pages'', JInt num_pages),
                 (''format'', JStr ''pdf'')] \<rparr>])
       lg"
  by (simp add: Let_def)

lemma pdf_loop_nonblank:
  assumes "pdf_loop pdf_path num_pages pages i results lg = (Inr out, lg')"
    and "\<forall>c\<in>set results. strip (text c) \<noteq> []"
  shows "\<forall>c\<in>set out. strip (text c) \<noteq> []"
  using assms
proof (induction pages arbitrary: i results lg)
  case Nil
  then show ?case by simp
next
  case (Cons page pages)
  show ?case
  proof (cases page)
    case (Inl e)
    with Cons.prems(1) show ?thesis by (simp only: pdf_loop_failed) simp
  next
    case (Inr page_text)
    show ?thesis
    proof (cases "page_text = [] \<or> len (strip page_text) = 0")
      case True
      have "pdf_loop pdf_path num_pages pages (i + 1) results
          (lg @ [LogWarning (''Page '' @ str_int (i + 1) @ '' has no extractable text'')]) =
          (Inr out, lg')"
        using Cons.prems(1) unfolding Inr pdf_loop_blank [OF True] .
      then show ?thesis using Cons.IH Cons.prems(2) by blast
    next
      case False
      then have nb: "strip page_text \<noteq> []" by (simp add: len_def)
      let ?c = "\<lparr> text = page_text,
              metadata =
                [(''source'', JStr (basename pdf_path)),
                 (''page'', JInt (i + 1)),
                 (''total_pages'', JInt num_pages),
                 (''format'', JStr ''pdf'')] \<rparr>"
      have run: "pdf_loop pdf_path num_pages pages (i + 1) (results @ [?c]) lg = (Inr out, lg')"
        using Cons.prems(1) unfolding Inr pdf_loop_page [OF False] .
      have "\<forall>c\<in>set (results @ [?c]). strip (text c) \<noteq> []"
        using Cons.prems(2) nb by simp
      then show ?thesis using Cons.IH [OF run] by blast
    qed
  qed
qed

lemma extract_text_from_pdf_Inr:
  assumes "extract_text_from_pdf pdf_path reader = (Inr results, lg)"
  shows "\<exists>pages l. reader = Inr pages \<and>
     pdf_loop pdf_path (len pages) pages 0 [] [LogInfo (''Processing PDF: '' @ pdf_path)] =
       (Inr results, l)"
  using assms unfolding extract_text_from_pdf_def Let_def
  by (auto split: sum.splits prod.splits)

text \<open>
  Claim C9, as amended. Only the PDF extractor filters records: every record it returns
  has text that is not empty after trimming. The text extractor returns no record when
  the whole file is empty after trimming, and otherwise every slab has at least one
  character (which may be whitespace). Nothing is said of the JSON extractor and of the
  re-chunker, which filter nothing.
\<close>

theorem C9_blank_text_filtering:
  "(extract_text_from_pdf pdf_path reader = (Inr results, lg) \<longrightarrow>
      (\<forall>c\<in>set results. strip (text c) \<noteq> [])) \<and>
   (strip content = [] \<longrightarrow> fst (extract_text_from_txt txt_path (Inr content)) = Inr []) \<and>
   (extract_text_from_txt txt_path (Inr content) = (Inr chunks, lg') \<longrightarrow>
      (\<forall>c\<in>set chunks. text c \<noteq> []))"
proof (intro conjI impI)
  assume a: "extract_text_from_pdf pdf_path reader = (Inr results, lg)"
  obtain pages l where "pdf_loop pdf_path (len pages) pages 0 []
      [LogInfo (''Processing PDF: '' @ pdf_path)] = (Inr results, l)"
    using extract_text_from_pdf_Inr [OF a] by blast
  then show "\<forall>c\<in>set results. strip (text c) \<noteq> []"
    by (rule pdf_loop_nonblank) simp
next
  assume "strip content = []"
  then show "fst (extract_text_from_txt txt_path (Inr content)) = Inr []"
    by (simp add: extract_text_from_txt_def len_def)
next
  assume a: "extract_text_from_txt txt_path (Inr content) = (Inr chunks, lg')"
  show "\<forall>c\<in>set chunks. text c \<noteq> []"
  proof
    fix c assume "c \<in> set chunks"
    then obtain i where "0 \<le> i" "i < len content" "c = txt_chunk txt_path content 1000 i"
      using extract_text_from_txt_chunks [OF a] by blast
    then show "text c \<noteq> []"
      using py_slice_slab(2) [of i 1000 content] by (simp add: txt_chunk_simps)
  qed
qed

text \<open>
  A PDF of three pages, the second blank; a text file of three spaces; a text file with
  content.
\<close>

theorem C9_blank_text_filtering_witness:
  "extract_text_from_pdf ''a.pdf'' (Inr [Inr ''one'', Inr ''  '', Inr ''three'']) =
     (Inr [\<lparr>text = ''one'',
             metadata = [(''source'', JStr ''a.pdf''), (''page'', JInt 1),
                         (''total_pages'', JInt 3), (''format'', JStr ''pdf'')]\<rparr>,
           \<lparr>text = ''three'',
             metadata = [(''source'', JStr ''a.pdf''), (''page'', JInt 3),
                         (''total_pages'', JInt 3), (''format'', JStr ''pdf'')]\<rparr>],
      [LogInfo ''Processing PDF: a.pdf'', LogWarning ''Page 2 has no extractable text'',
       LogInfo ''Successfully extracted text from 2 pages'']) \<and>
   strip ''one'' \<noteq> [] \<and> strip ''three'' \<noteq> [] \<and>
   strip ''   '' = [] \<and>
   fst (extract_text_from_txt ''a.txt'' (Inr ''   '')) = Inr [] \<and>
   extract_text_from_txt ''a.txt'' (Inr '' hello '') =
     (Inr [\<lparr>text = '' hello '',
             metadata = [(''source'', JStr ''a.txt''), (''chunk'', JInt 1),
                         (''total_chunks'', JInt 1), (''format'', JStr ''txt'')]\<rparr>],
      [LogInfo ''Processing TXT: a.txt'',
       LogInfo ''Successfully extracted 1 chunks from text file'']) \<and>
   '' hello '' \<noteq> []"
proof -
  let ?pages = "[\<lparr>text = ''one'',
             metadata = [(''source'', JStr ''a.pdf''), (''page'', JInt 1),
                         (''total_pages'', JInt 3), (''format'', JStr ''pdf'')]\<rparr>,
           \<lparr>text = ''three'',
             metadata = [(''source'', JStr ''a.pdf''), (''page'', JInt 3),
                         (''total_pages'', JInt 3), (''format'', JStr ''pdf'')]\<rparr>]"
  let ?slabs = "[\<lparr>text = '' hello '',
             metadata = [(''source'', JStr ''a.txt''), (''chunk'', JInt 1),
                         (''total_chunks'', JInt 1), (''format'', JStr ''txt'')]\<rparr>]"
  have pdf: "extract_text_from_pdf ''a.pdf'' (Inr [Inr ''one'', Inr ''  '', Inr ''three'']) =
     (Inr ?pages,
      [LogInfo ''Processing PDF: a.pdf'', LogWarning ''Page 2 has no extractable text'',
       LogInfo ''Successfully extracted text from 2 pages''])"
    by code_simp
  have blank: "strip ''   '' = []" by code_simp
  have slab: "extract_text_from_txt ''a.txt'' (Inr '' hello '') =
     (Inr ?slabs,
      [LogInfo ''Processing TXT: a.txt'',
       LogInfo ''Successfully extracted 1 chunks from text file''])"
    by code_simp
  have "\<forall>c\<in>set ?pages. strip (text c) \<noteq> []"
    using C9_blank_text_filtering [where pdf_path = "''a.pdf''"
        and reader = "Inr [Inr ''one'', Inr ''  '', Inr ''three'']" and results = ?pages
        and lg = "[LogInfo ''Processing PDF: a.pdf'', LogWarning ''Page 2 has no extractable text'',
                   LogInfo ''Successfully extracted text from 2 pages'']"] pdf
    by blast
  then have one: "strip ''one'' \<noteq> [] \<and> strip ''three'' \<noteq> []"
    by simp
  have none: "fst (extract_text_from_txt ''a.txt'' (Inr ''   '')) = Inr []"
    using C9_blank_text_filtering [where content = "''   ''" and txt_path = "''a.txt''"] blank
    by blast
  have "\<forall>c\<in>set ?slabs. text c \<noteq> []"
    using C9_blank_text_filtering [where content = "'' hello ''" and txt_path = "''a.txt''"
        and chunks = ?slabs
        and lg' = "[LogInfo ''Processing TXT: a.txt'',
                    LogInfo ''Successfully extracted 1 chunks from text file'']"] slab
    by blast
  then have some: "'' hello '' \<noteq> []"
    by simp
  show ?thesis
    using pdf one blank none slab some by blast
qed

text \<open>
  Against claim C9 as stated: the JSON extractor turns the empty object into a record
  with empty text, which \<^verbatim>\<open>process_document\<close> returns; and the re-chunker emits the
  window of two spaces as a record of its own.
\<close>

theorem C9_blank_text_filtering_counterexample:
  "extract_text_from_json ''a.json'' (Inr (JDict [])) =
     (Inr [\<lparr>text = [],
             metadata = [(''source'', JStr ''a.json''), (''item_index'', JInt 0),
                         (''total_items'', JInt 1), (''format'', JStr ''json''),
                         (''original_item'', JDict [])]\<rparr>],
      [LogInfo ''Processing JSON: a.json'',
       LogInfo ''Successfully extracted 1 chunks from JSON file'']) \<and>
   map text (projr (outcome (process_document ''a.json'' None
      \<lparr>on_disk = True, pdf_reader = Inl (PdfReadError ''not a PDF''),
        read_text = Inr ''{}'', json_load = Inr (JDict [])\<rparr> None))) = [[]] \<and>
   split_into_chunks [\<lparr>text = ''ab  '', metadata = []\<rparr>] 2 0 =
     Inr [\<lparr>text = ''ab'',
            metadata = [(''chunk'', JInt 1), (''total_chunks_from_original'', JInt 2),
                        (''original_page'', JInt 1)]\<rparr>,
          \<lparr>text = ''  '',
            metadata = [(''chunk'', JInt 2), (''total_chunks_from_original'', JInt 2),
                        (''original_page'', JInt 1)]\<rparr>] \<and>
   strip ''  '' = []"
  by code_simp

subsection \<open>Unknown extensions\<close>

lemma dispatch_fallback:
  assumes "file_ext \<noteq> ''.pdf''" "file_ext \<noteq> ''.txt''" "file_ext \<noteq> ''.json''"
  shows "dispatch file_ext file_path src =
     (fst (extract_text_from_txt file_path (read_text src)),
      LogWarning (''Unsupported file extension: '' @ file_ext @ '', treating as text'') #
        snd (extract_text_from_txt file_path (read_text src)))"
  using assms by (simp add: dispatch_def split: prod.splits)

lemma process_document_run:
  assumes "on_disk src"
    and "dispatch (lower (splitext_ext file_path)) file_path src = (Inr extracted, lg)"
    and "split_into_chunks extracted 1000 200 = Inr chunks"
  shows "\<exists>lg'. logged (process_document file_path output_path src sink) =
            LogInfo (''Processing file with extension: '' @ lower (splitext_ext file_path)) # lg @ lg'"
    and "outcome (process_document file_path output_path src sink) = Inr chunks \<or>
         (\<exists>e. outcome (process_document file_path output_path src sink) = Inl e)"
  using assms
  by (auto simp: process_document_def Let_def document_failed_def split: option.splits)

lemma process_document_failed:
  assumes "on_disk src"
    and "dispatch (lower (splitext_ext file_path)) file_path src = (Inl e, lg)"
  shows "logged (process_document file_path output_path src sink) =
            LogInfo (''Processing file with extension: '' @ lower (splitext_ext file_path)) # lg @
              log_exception ''Error processing document: '' e"
    and "outcome (process_document file_path output_path src sink) = Inl e"
  using assms
  by (auto simp: process_document_def Let_def document_failed_def)

text \<open>
  Claim C8, as amended. For a file that exists and whose lower-cased extension is none
  of \<open>.pdf\<close>, \<open>.txt\<close>, \<open>.json\<close>, \<^verbatim>\<open>process_document\<close> logs the warning
  "Unsupported file extension" right after the extension and before the text extractor
  starts, runs the text extractor, and whenever it returns records they are the text
  extractor's records, each with \<open>format\<close> equal to \<open>txt\<close>: the value a \<open>.txt\<close> file gets,
  not a marker of its own.
\<close>

theorem C8_unknown_extension_as_text:
  assumes disk: "on_disk src"
    and ext: "lower (splitext_ext file_path) \<notin> {''.pdf'', ''.txt'', ''.json''}"
  shows "(\<exists>lg. logged (process_document file_path output_path src sink) =
            LogInfo (''Processing file with extension: '' @ lower (splitext_ext file_path)) #
            LogWarning (''Unsupported file extension: '' @ lower (splitext_ext file_path) @
                          '', treating as text'') #
            LogInfo (''Processing TXT: '' @ file_path) # lg) \<and>
         (\<forall>chunks. outcome (process_document file_path output_path src sink) = Inr chunks \<longrightarrow>
            (\<exists>lg. extract_text_from_txt file_path (read_text src) = (Inr chunks, lg)) \<and>
            (\<forall>c\<in>set chunks. map_of (metadata c) ''format'' = Some (JStr ''txt'')))"
proof -
  define file_ext where "file_ext = lower (splitext_ext file_path)"
  define warning where "warning =
    LogWarning (''Unsupported file extension: '' @ file_ext @ '', treating as text'')"
  obtain r l where ex: "extract_text_from_txt file_path (read_text src) =
      (r, LogInfo (''Processing TXT: '' @ file_path) # l)"
    using extract_text_from_txt_log [of file_path "read_text src"]
    by (cases "extract_text_from_txt file_path (read_text src)") auto
  have d: "dispatch file_ext file_path src =
      (r, warning # LogInfo (''Processing TXT: '' @ file_path) # l)"
    using ext ex by (simp add: dispatch_fallback file_ext_def warning_def)
  show ?thesis
  proof (cases r)
    case (Inl e)
    show ?thesis
      using process_document_failed [OF disk d [unfolded file_ext_def Inl], of output_path sink]
      by (simp add: file_ext_def warning_def)
  next
    case (Inr extracted)
    note recs = txt_records [OF ex [unfolded Inr]]
    note run = process_document_run [OF disk d [unfolded file_ext_def Inr] recs(1),
        of output_path sink]
    have "\<exists>lg. logged (process_document file_path output_path src sink) =
            LogInfo (''Processing file with extension: '' @ lower (splitext_ext file_path)) #
            LogWarning (''Unsupported file extension: '' @ lower (splitext_ext file_path) @
                          '', treating as text'') #
            LogInfo (''Processing TXT: '' @ file_path) # lg"
      using run(1) by (auto simp: file_ext_def warning_def)
    moreover have "(\<exists>lg. extract_text_from_txt file_path (read_text src) = (Inr chunks, lg)) \<and>
            (\<forall>c\<in>set chunks. map_of (metadata c) ''format'' = Some (JStr ''txt''))"
      if "outcome (process_document file_path output_path src sink) = Inr chunks" for chunks
    proof -
      have "chunks = extracted" using run(2) that by auto
      then show ?thesis using ex recs(2) Inr by auto
    qed
    ultimately show ?thesis by blast
  qed
qed

text \<open>
  The file \<open>docs/notes.MD\<close>: its extension is lower-cased to \<open>.md\<close>, the warning is
  logged, and the outcome is the text extractor's.
\<close>

theorem C8_unknown_extension_as_text_witness:
  "on_disk \<lparr>on_disk = True, pdf_reader = Inl (PdfReadError ''not a PDF''),
             read_text = Inr ''hi'', json_load = Inl (JSONDecodeError ''not JSON'')\<rparr> \<and>
   lower (splitext_ext ''docs/notes.MD'') = ''.md'' \<and>
   process_document ''docs/notes.MD'' None
      \<lparr>on_disk = True, pdf_reader = Inl (PdfReadError ''not a PDF''),
        read_text = Inr ''hi'', json_load = Inl (JSONDecodeError ''not JSON'')\<rparr> None =
     \<lparr>outcome =
        Inr [\<lparr>text = ''hi'',
               metadata = [(''source'', JStr ''notes.MD''), (''chunk'', JInt 1),
                           (''total_chunks'', JInt 1), (''format'', JStr ''txt'')]\<rparr>],
      logged =
        [LogInfo ''Processing file with extension: .md'',
         LogWarning ''Unsupported file extension: .md, treating as text'',
         LogInfo ''Processing TXT: docs/notes.MD'',
         LogInfo ''Successfully extracted 1 chunks from text file''],
      saved = None\<rparr> \<and>
   (\<exists>lg. logged (process_document ''docs/notes.MD'' None
      \<lparr>on_disk = True, pdf_reader = Inl (PdfReadError ''not a PDF''),
        read_text = Inr ''hi'', json_load = Inl (JSONDecodeError ''not JSON'')\<rparr> None) =
            LogInfo (''Processing file with extension: '' @ lower (splitext_ext ''docs/notes.MD'')) #
            LogWarning (''Unsupported file extension: '' @ lower (splitext_ext ''docs/notes.MD'') @
                          '', treating as text'') #
            LogInfo (''Processing TXT: '' @ ''docs/notes.MD'') # lg) \<and>
   (\<exists>lg. extract_text_from_txt ''docs/notes.MD'' (Inr ''hi'') =
      (Inr [\<lparr>text = ''hi'',
              metadata = [(''source'', JStr ''notes.MD''), (''chunk'', JInt 1),
                          (''total_chunks'', JInt 1), (''format'', JStr ''txt'')]\<rparr>], lg)) \<and>
   map_of [(''source'', JStr ''notes.MD''), (''chunk'', JInt 1),
           (''total_chunks'', JInt 1), (''format'', JStr ''txt'')] ''format'' = Some (JStr ''txt'')"
proof -
  let ?src = "\<lparr>on_disk = True, pdf_reader = Inl (PdfReadError ''not a PDF''),
             read_text = Inr ''hi'', json_load = Inl (JSONDecodeError ''not JSON'')\<rparr>"
  let ?c = "\<lparr>text = ''hi'',
               metadata = [(''source'', JStr ''notes.MD''), (''chunk'', JInt 1),
                           (''total_chunks'', JInt 1), (''format'', JStr ''txt'')]\<rparr>"
  have h1: "on_disk ?src" by simp
  have e: "lower (splitext_ext ''docs/notes.MD'') = ''.md''" by code_simp
  have h2: "lower (splitext_ext ''docs/notes.MD'') \<notin> {''.pdf'', ''.txt'', ''.json''}"
    by (simp add: e)
  have run: "process_document ''docs/notes.MD'' None ?src None =
     \<lparr>outcome = Inr [?c],
      logged =
        [LogInfo ''Processing file with extension: .md'',
         LogWarning ''Unsupported file extension: .md, treating as text'',
         LogInfo ''Processing TXT: docs/notes.MD'',
         LogInfo ''Successfully extracted 1 chunks from text file''],
      saved = None\<rparr>"
    by code_simp
  note inst = C8_unknown_extension_as_text [OF h1 h2, of None None]
  have o: "outcome (process_document ''docs/notes.MD'' None ?src None) = Inr [?c]"
    by (simp only: run run.simps)
  have l: "\<exists>lg. logged (process_document ''docs/notes.MD'' None ?src None) =
            LogInfo (''Processing file with extension: '' @ lower (splitext_ext ''docs/notes.MD'')) #
            LogWarning (''Unsupported file extension: '' @ lower (splitext_ext ''docs/notes.MD'') @
                          '', treating as text'') #
            LogInfo (''Processing TXT: '' @ ''docs/notes.MD'') # lg"
    using inst by blast
  have x: "(\<exists>lg. extract_text_from_txt ''docs/notes.MD'' (read_text ?src) = (Inr [?c], lg)) \<and>
      (\<forall>c\<in>set [?c]. map_of (metadata c) ''format'' = Some (JStr ''txt''))"
    using inst o by blast
  then have x1: "\<exists>lg. extract_text_from_txt ''docs/notes.MD'' (Inr ''hi'') = (Inr [?c], lg)"
    and x2: "map_of [(''source'', JStr ''notes.MD''), (''chunk'', JInt 1),
           (''total_chunks'', JInt 1), (''format'', JStr ''txt'')] ''format'' = Some (JStr ''txt'')"
    by simp_all
  show ?thesis
    by (intro conjI h1 e run l x1 x2)
qed

text \<open>
  Against claim C8 as stated: the record made from \<open>docs/notes.md\<close> carries
  \<open>format = txt\<close>, one of the three named formats and the very value the same content
  gets as \<open>docs/notes.txt\<close>; no fallback marker is recorded in the metadata.
\<close>

theorem C8_unknown_extension_as_text_counterexample:
  "process_document ''docs/notes.md'' None
      \<lparr>on_disk = True, pdf_reader = Inl (PdfReadError ''not a PDF''),
        read_text = Inr ''hi'', json_load = Inl (JSONDecodeError ''not JSON'')\<rparr> None =
     \<lparr>outcome =
        Inr [\<lparr>text = ''hi'',
               metadata = [(''source'', JStr ''notes.md''), (''chunk'', JInt 1),
                           (''total_chunks'', JInt 1), (''format'', JStr ''txt'')]\<rparr>],
      logged =
        [LogInfo ''Processing file with extension: .md'',
         LogWarning ''Unsupported file extension: .md, treating as text'',
         LogInfo ''Processing TXT: docs/notes.md'',
         LogInfo ''Successfully extracted 1 chunks from text file''],
      saved = None\<rparr> \<and>
   map (\<lambda>c. map_of (metadata c) ''format'')
     (projr (outcome (process_document ''docs/notes.md'' None
        \<lparr>on_disk = True, pdf_reader = Inl (PdfReadError ''not a PDF''),
          read_text = Inr ''hi'', json_load = Inl (JSONDecodeError ''not JSON'')\<rparr> None))) =
   map (\<lambda>c. map_of (metadata c) ''format'')
     (projr (outcome (process_document ''docs/notes.txt'' None
        \<lparr>on_disk = True, pdf_reader = Inl (PdfReadError ''not a PDF''),
          read_text = Inr ''hi'', json_load = Inl (JSONDecodeError ''not JSON'')\<rparr> None)))"
  by code_simp

section \<open>Properties of \<^verbatim>\<open>flatten_json\<close>\<close>

subsection \<open>The flattened mapping stores the key-paths in traversal order\<close>

lemma dict_set_new: "k \<notin> fst ` set d \<Longrightarrow> dict_set d k v = d @ [(k, v)]"
  unfolding dict_set_def by (induction d) auto

lemma dict_update_new:
  "distinct (map fst (d @ other)) \<Longrightarrow> dict_update d other = d @ other"
proof (induction other arbitrary: d)
  case Nil
  show ?case by (simp add: dict_update_def)
next
  case (Cons kv other)
  obtain k v where kv: "kv = (k, v)" by (cases kv)
  have new: "k \<notin> fst ` set d" using Cons.prems kv by auto
  have "dict_update d (kv # other) = dict_update (dict_set d k v) other"
    by (simp add: dict_update_def kv)
  also have "\<dots> = dict_update (d @ [(k, v)]) other"
    by (simp add: dict_set_new [OF new])
  also have "\<dots> = (d @ [(k, v)]) @ other"
    using Cons.prems kv by (intro Cons.IH) simp
  finally show ?case by (simp add: kv)
qed

lemma dict_update_append:
  "dict_update d (xs @ ys) = dict_update (dict_update d xs) ys"
  by (simp add: dict_update_def)

lemma dict_update_Cons:
  "dict_update d ((k, v) # xs) = dict_update (dict_set d k v) xs"
  by (simp add: dict_update_def)

lemma dict_update_Nil: "dict_update d [] = d"
  by (simp add: dict_update_def)

lemma dict_set_keys: "fst ` set (dict_set d k v) = insert k (fst ` set d)"
  unfolding dict_set_def by (induction d) auto

lemma dict_set_distinct: "distinct (map fst d) \<Longrightarrow> distinct (map fst (dict_set d k v))"
  unfolding dict_set_def by (rule distinct_update)

lemma dict_update_distinct:
  "distinct (map fst d) \<Longrightarrow> distinct (map fst (dict_update d xs))"
proof (induction xs arbitrary: d)
  case Nil
  then show ?case by (simp add: dict_update_Nil)
next
  case (Cons kv xs)
  obtain k v where kv: "kv = (k, v)" by (cases kv)
  show ?case
    unfolding kv dict_update_Cons
    by (rule Cons.IH) (rule dict_set_distinct [OF Cons.prems])
qed

lemma dict_set_twice: "dict_set (dict_set d k w) k v = dict_set d k v"
  unfolding dict_set_def by (rule update_last)

lemma dict_set_swap:
  "k \<in> fst ` set d \<Longrightarrow> k \<noteq> k' \<Longrightarrow>
     dict_set (dict_set d k' v') k v = dict_set (dict_set d k v) k' v'"
  unfolding dict_set_def by (induction d) auto

text \<open>Storing into a key that is present commutes with later stores into other keys.\<close>

lemma dict_set_past_update:
  "k \<in> fst ` set d \<Longrightarrow> k \<notin> fst ` set xs \<Longrightarrow>
     dict_set (dict_update d xs) k v = dict_update (dict_set d k v) xs"
proof (induction xs arbitrary: d)
  case Nil
  show ?case by (simp add: dict_update_Nil)
next
  case (Cons kv xs)
  obtain k' v' where kv: "kv = (k', v')" by (cases kv)
  have ne: "k \<noteq> k'" and rest: "k \<notin> fst ` set xs"
    using Cons.prems(2) kv by auto
  have "k \<in> fst ` set (dict_set d k' v')"
    using Cons.prems(1) by (simp add: dict_set_keys)
  then have "dict_set (dict_update (dict_set d k' v') xs) k v =
      dict_update (dict_set (dict_set d k' v') k v) xs"
    using rest by (rule Cons.IH)
  also have "dict_set (dict_set d k' v') k v = dict_set (dict_set d k v) k' v'"
    using Cons.prems(1) ne by (rule dict_set_swap)
  finally show ?case by (simp add: kv dict_update_Cons)
qed

text \<open>
  Changing the value a dictionary with distinct keys holds for \<open>k\<close>, or adding \<open>k\<close> to
  it, and then merging it into \<open>r\<close> is the same as merging first and storing \<open>k\<close> last.
\<close>

lemma dict_update_dict_set:
  assumes "distinct (map fst d)"
  shows "dict_update r (dict_set d k v) = dict_set (dict_update r d) k v"
  using assms
proof (induction d arbitrary: r)
  case Nil
  show ?case by (simp add: dict_set_def dict_update_def)
next
  case (Cons kw d)
  obtain k' w where kw: "kw = (k', w)" by (cases kw)
  have dd: "distinct (map fst d)" and new: "k' \<notin> fst ` set d"
    using Cons.prems kw by auto
  show ?case
  proof (cases "k' = k")
    case True
    have "dict_update r (dict_set (kw # d) k v) = dict_update (dict_set r k v) d"
      by (simp add: kw True dict_set_def dict_update_def)
    also have "\<dots> = dict_update (dict_set (dict_set r k w) k v) d"
      by (simp only: dict_set_twice)
    also have "\<dots> = dict_set (dict_update (dict_set r k w) d) k v"
      using new True by (intro dict_set_past_update [symmetric]) (simp_all add: dict_set_keys)
    finally show ?thesis by (simp add: kw True dict_update_Cons)
  next
    case False
    have "dict_update r (dict_set (kw # d) k v) = dict_update (dict_set r k' w) (dict_set d k v)"
      using False by (simp add: kw dict_set_def dict_update_def)
    also have "\<dots> = dict_set (dict_update (dict_set r k' w) d) k v"
      using dd by (rule Cons.IH)
    finally show ?thesis by (simp add: kw dict_update_Cons)
  qed
qed

text \<open>
  Merging a dictionary that was itself built by stores is the same as doing the stores
  directly: \<^verbatim>\<open>result.update(flatten_json(value, new_key))\<close> adds the pairs of the
  sub-structure in their order.
\<close>

lemma dict_update_merge:
  "dict_update r (dict_update [] xs) = dict_update r xs"
proof (induction xs rule: rev_induct)
  case Nil
  show ?case by (simp add: dict_update_Nil)
next
  case (snoc kv xs)
  obtain k v where kv: "kv = (k, v)" by (cases kv)
  have "dict_update r (dict_update [] (xs @ [kv])) =
      dict_update r (dict_set (dict_update [] xs) k v)"
    by (simp add: kv dict_update_append dict_update_Cons dict_update_Nil)
  also have "\<dots> = dict_set (dict_update r (dict_update [] xs)) k v"
    by (rule dict_update_dict_set) (simp add: dict_update_distinct)
  also have "\<dots> = dict_set (dict_update r xs) k v"
    by (simp only: snoc.IH)
  finally show ?case
    by (simp add: kv dict_update_append dict_update_Cons dict_update_Nil)
qed

lemma flatten_json_refines:
  "flatten_json obj prefix = dict_update [] (key_paths obj prefix)"
  "flatten_list_loop elems i prefix result =
     dict_update result (key_paths_list elems i prefix)"
  "flatten_dict_loop items prefix result =
     dict_update result (key_paths_items items prefix)"
proof (induction obj prefix and elems i prefix and items prefix arbitrary: and result and result
    rule: key_paths_key_paths_list_key_paths_items.induct)
  case (1 s prefix)
  show ?case by (simp add: dict_update_Cons dict_update_Nil)
next
  case (2 obj prefix)
  then show ?case by simp
next
  case (3 obj prefix)
  then show ?case by simp
next
  case (4 i prefix)
  show ?case by (simp add: dict_update_Nil)
next
  case (5 item rest i prefix)
  define k where "k = prefix @ ''['' @ str_nat i @ '']''"
  have paths: "key_paths_list (item # rest) i prefix =
      key_paths item k @ key_paths_list rest (Suc i) prefix"
    by (simp add: k_def)
  have loop: "flatten_list_loop (item # rest) i prefix result =
      flatten_list_loop rest (Suc i) prefix
        (case item of Scalar s \<Rightarrow> dict_set result k s
         | _ \<Rightarrow> dict_update result (flatten_json item k))"
    by (simp add: k_def Let_def cong: json.case_cong)
  have ih1: "flatten_json item k = dict_update [] (key_paths item k)"
    using "5.IH"(1) by (simp add: k_def)
  have step: "(case item of Scalar s \<Rightarrow> dict_set result k s
               | _ \<Rightarrow> dict_update result (flatten_json item k)) =
              dict_update result (key_paths item k)"
  proof (cases item)
    case (Scalar s)
    then show ?thesis by (simp add: dict_update_Cons dict_update_Nil)
  next
    case (JList xs)
    then show ?thesis using ih1
      by (simp add: dict_update_merge del: flatten_json.simps key_paths.simps)
  next
    case (JDict xs)
    then show ?thesis using ih1
      by (simp add: dict_update_merge del: flatten_json.simps key_paths.simps)
  qed
  show ?case
    by (simp only: loop step "5.IH"(2) paths dict_update_append)
next
  case (6 prefix)
  show ?case by (simp add: dict_update_Nil)
next
  case (7 kv rest prefix)
  obtain key val where kv: "kv = (key, val)" by (cases kv)
  define k where "k = (if prefix \<noteq> [] then prefix @ ''.'' @ key else key)"
  have paths: "key_paths_items (kv # rest) prefix =
      key_paths val k @ key_paths_items rest prefix"
    by (simp add: k_def kv)
  have loop: "flatten_dict_loop (kv # rest) prefix result =
      flatten_dict_loop rest prefix
        (case val of Scalar s \<Rightarrow> dict_set result k s
         | _ \<Rightarrow> dict_update result (flatten_json val k))"
    by (simp add: k_def kv Let_def cong: json.case_cong)
  have ih1: "flatten_json val k = dict_update [] (key_paths val k)"
    using "7.IH"(1) unfolding kv k_def by (cases "prefix = []") simp_all
  have step: "(case val of Scalar s \<Rightarrow> dict_set result k s
               | _ \<Rightarrow> dict_update result (flatten_json val k)) =
              dict_update result (key_paths val k)"
  proof (cases val)
    case (Scalar s)
    then show ?thesis by (simp add: dict_update_Cons dict_update_Nil)
  next
    case (JList xs)
    then show ?thesis using ih1
      by (simp add: dict_update_merge del: flatten_json.simps key_paths.simps)
  next
    case (JDict xs)
    then show ?thesis using ih1
      by (simp add: dict_update_merge del: flatten_json.simps key_paths.simps)
  qed
  show ?case
    by (simp only: loop step "7.IH"(2) paths dict_update_append)
qed

text \<open>
  Claim C6. The mapping \<^verbatim>\<open>flatten_json\<close> returns is the dictionary obtained by
  storing, in traversal order, the pairs of key-path and leaf, where a key-path joins
  object keys with \<open>.\<close> and array indices as \<open>[i]\<close> from zero (\<open>key_paths\<close>). On the two
  values of the specification it is \<open>a.b \<mapsto> 1, c[0] \<mapsto> 2, c[1] \<mapsto> 3\<close> and
  \<open>[0] \<mapsto> 1, [1] \<mapsto> 2, [2] \<mapsto> 3\<close>, with the keys in these orders.
\<close>

theorem C6_flatten_key_paths:
  "flatten_json obj prefix = dict_update [] (key_paths obj prefix) \<and>
   flatten_json (JDict [(''a'', JDict [(''b'', JInt 1)]), (''c'', JList [JInt 2, JInt 3])]) [] =
     [(''a.b'', SInt 1), (''c[0]'', SInt 2), (''c[1]'', SInt 3)] \<and>
   flatten_json (JList [JInt 1, JInt 2, JInt 3]) [] =
     [(''[0]'', SInt 1), (''[1]'', SInt 2), (''[2]'', SInt 3)]"
proof -
  have a: "flatten_json (JDict [(''a'', JDict [(''b'', JInt 1)]), (''c'', JList [JInt 2, JInt 3])]) [] =
     [(''a.b'', SInt 1), (''c[0]'', SInt 2), (''c[1]'', SInt 3)]"
    by code_simp
  have b: "flatten_json (JList [JInt 1, JInt 2, JInt 3]) [] =
     [(''[0]'', SInt 1), (''[1]'', SInt 2), (''[2]'', SInt 3)]"
    by code_simp
  show ?thesis
    by (intro conjI flatten_json_refines(1) a b)
qed

subsection \<open>When key-paths are distinct\<close>

lemma digit_inj:
  assumes "m < 10" "n < 10" "''0123456789'' ! m = ''0123456789'' ! n"
  shows "m = n"
proof -
  have "distinct ''0123456789''" by simp
  moreover have "m < length ''0123456789''" "n < length ''0123456789''"
    using assms by simp_all
  ultimately show ?thesis using assms(3) by (simp only: nth_eq_iff_index_eq)
qed

lemma digit_in: "n < 10 \<Longrightarrow> ''0123456789'' ! n \<in> set ''0123456789''"
  by (rule nth_mem) simp

lemma str_nat_nonempty: "str_nat n \<noteq> []"
  by (subst str_nat.simps) simp

lemma str_nat_digits: "set (str_nat n) \<subseteq> set ''0123456789''"
proof (induction n rule: str_nat.induct)
  case (1 n)
  show ?case
  proof (cases "n < 10")
    case True
    then show ?thesis using digit_in [of n] by (subst str_nat.simps) simp
  next
    case False
    have "n mod 10 < 10" by simp
    then have "''0123456789'' ! (n mod 10) \<in> set ''0123456789''" by (rule digit_in)
    then show ?thesis using False 1 by (subst str_nat.simps) simp
  qed
qed

lemma str_nat_no_bracket: "CHR '']'' \<notin> set (str_nat n)"
  using str_nat_digits [of n] by auto

lemma str_nat_inj: "str_nat m = str_nat n \<Longrightarrow> m = n"
proof (induction m arbitrary: n rule: str_nat.induct)
  case (1 m)
  show ?case
  proof (cases "m < 10")
    case m: True
    show ?thesis
    proof (cases "n < 10")
      case True
      then show ?thesis using "1.prems" m digit_inj [of m n]
        by (simp add: str_nat.simps [of m] str_nat.simps [of n])
    next
      case False
      then show ?thesis using "1.prems" m str_nat_nonempty [of "n div 10"]
        by (simp add: str_nat.simps [of m] str_nat.simps [of n])
    qed
  next
    case m: False
    show ?thesis
    proof (cases "n < 10")
      case True
      then show ?thesis using "1.prems" m str_nat_nonempty [of "m div 10"]
        by (simp add: str_nat.simps [of m] str_nat.simps [of n])
    next
      case False
      have eq: "str_nat (m div 10) @ [''0123456789'' ! (m mod 10)] =
                str_nat (n div 10) @ [''0123456789'' ! (n mod 10)]"
        using "1.prems" m False by (simp add: str_nat.simps [of m] str_nat.simps [of n])
      then have "str_nat (m div 10) = str_nat (n div 10)"
        and d: "''0123456789'' ! (m mod 10) = ''0123456789'' ! (n mod 10)"
        by simp_all
      then have "m div 10 = n div 10" using "1.IH" m by blast
      moreover have "m mod 10 = n mod 10"
        using d by (intro digit_inj) simp_all
      ultimately show ?thesis by (metis div_mult_mod_eq)
    qed
  qed
qed

lemma extends_refl: "extends p p"
  by (simp add: extends_def)

lemma extends_member:
  assumes "p \<noteq> []" "extends (member_key p k) s"
  shows "extends p s"
proof -
  obtain t where "s = (p @ ''.'' @ k) @ t"
    using assms by (auto simp: extends_def member_key_def)
  then have "s = p @ (''.'' @ k @ t)" by simp
  then show ?thesis unfolding extends_def by (auto simp: is_sep_def)
qed

lemma extends_index:
  assumes "extends (index_key p i) s"
  shows "extends p s"
proof -
  obtain t where "s = (p @ ''['' @ str_nat i @ '']'') @ t"
    using assms by (auto simp: extends_def index_key_def)
  then have "s = p @ (''['' @ str_nat i @ '']'' @ t)" by simp
  then show ?thesis unfolding extends_def by (auto simp: is_sep_def)
qed

lemma member_key_nonempty: "plain_key k \<Longrightarrow> member_key p k \<noteq> []"
  by (simp add: member_key_def plain_key_def)

lemma index_key_nonempty: "index_key p i \<noteq> []"
  by (simp add: index_key_def)

lemma takeWhile_stop:
  "\<forall>c\<in>set xs. P c \<Longrightarrow> \<not> P y \<Longrightarrow> takeWhile P (xs @ y # ys) = xs"
  by (induction xs) auto

lemma plain_prefix_unique:
  assumes "k @ t = k' @ t'"
    and "\<forall>c\<in>set k. \<not> is_sep c" "\<forall>c\<in>set k'. \<not> is_sep c"
    and "t = [] \<or> is_sep (hd t)" "t' = [] \<or> is_sep (hd t')"
  shows "k = k'"
proof -
  have "takeWhile (\<lambda>c. \<not> is_sep c) (k @ t) = k" if "\<forall>c\<in>set k. \<not> is_sep c" "t = [] \<or> is_sep (hd t)"
    for k t :: string
    using that by (cases t) (simp_all add: takeWhile_append2)
  then show ?thesis using assms by metis
qed

lemma member_key_unique:
  assumes "extends (member_key p k) s" "extends (member_key p k') s"
    and "plain_key k" "plain_key k'"
  shows "k = k'"
proof -
  obtain t where t: "s = member_key p k @ t" "t = [] \<or> is_sep (hd t)"
    using assms(1) unfolding extends_def by blast
  obtain t' where t': "s = member_key p k' @ t'" "t' = [] \<or> is_sep (hd t')"
    using assms(2) unfolding extends_def by blast
  from t t' have eq: "k @ t = k' @ t'"
    by (auto simp: member_key_def split: if_splits)
  have "\<forall>c\<in>set k. \<not> is_sep c" "\<forall>c\<in>set k'. \<not> is_sep c"
    using assms(3,4) by (auto simp: plain_key_def is_sep_def)
  then show ?thesis
    using plain_prefix_unique [OF eq] t(2) t'(2) by blast
qed

lemma index_key_unique:
  assumes "extends (index_key p i) s" "extends (index_key p j) s"
  shows "i = j"
proof -
  obtain t where t: "s = index_key p i @ t"
    using assms(1) unfolding extends_def by blast
  obtain t' where t': "s = index_key p j @ t'"
    using assms(2) unfolding extends_def by blast
  from t t' have eq: "str_nat i @ (CHR '']'' # t) = str_nat j @ (CHR '']'' # t')"
    by (simp add: index_key_def)
  have "takeWhile (\<lambda>c. c \<noteq> CHR '']'') (str_nat n @ (CHR '']'' # u)) = str_nat n" for n u
    using str_nat_no_bracket [of n] by (intro takeWhile_stop) auto
  then have "str_nat i = str_nat j" using eq by metis
  then show ?thesis by (rule str_nat_inj)
qed

lemma key_paths_shape:
  "plain_keys obj \<Longrightarrow> prefix \<noteq> [] \<Longrightarrow>
     \<forall>s\<in>fst ` set (key_paths obj prefix). extends prefix s"
  "plain_keys_list elems \<Longrightarrow>
     \<forall>s\<in>fst ` set (key_paths_list elems i prefix). \<exists>j\<ge>i. extends (index_key prefix j) s"
  "plain_keys_items items \<Longrightarrow>
     \<forall>s\<in>fst ` set (key_paths_items items prefix).
        \<exists>k\<in>fst ` set items. extends (member_key prefix k) s"
proof (induction obj prefix and elems i prefix and items prefix
    rule: key_paths_key_paths_list_key_paths_items.induct)
  case (1 s prefix)
  show ?case by (simp add: extends_refl)
next
  case (2 obj prefix)
  then show ?case by (auto dest: extends_index)
next
  case (3 obj prefix)
  then show ?case by (auto dest: extends_member)
next
  case (4 i prefix)
  show ?case by simp
next
  case (5 item rest i prefix)
  have here: "\<forall>s\<in>fst ` set (key_paths item (index_key prefix i)). extends (index_key prefix i) s"
    using 5 by (simp add: index_key_def)
  have later: "\<forall>s\<in>fst ` set (key_paths_list rest (Suc i) prefix).
      \<exists>j\<ge>Suc i. extends (index_key prefix j) s"
    using 5 by simp
  show ?case
  proof
    fix s assume "s \<in> fst ` set (key_paths_list (item # rest) i prefix)"
    then consider "s \<in> fst ` set (key_paths item (index_key prefix i))"
      | "s \<in> fst ` set (key_paths_list rest (Suc i) prefix)"
      by (auto simp: index_key_def)
    then show "\<exists>j\<ge>i. extends (index_key prefix j) s"
    proof cases
      case 1
      then show ?thesis using here by auto
    next
      case 2
      then obtain j where "Suc i \<le> j" "extends (index_key prefix j) s" using later by blast
      then show ?thesis by (intro exI [of _ j]) simp
    qed
  qed
next
  case (6 prefix)
  show ?case by simp
next
  case (7 kv rest prefix)
  have pk: "plain_key (fst kv)" using 7 by simp
  have here: "\<forall>s\<in>fst ` set (key_paths (snd kv) (member_key prefix (fst kv))).
      extends (member_key prefix (fst kv)) s"
    using 7 member_key_nonempty [OF pk, of prefix] by (simp add: member_key_def)
  have later: "\<forall>s\<in>fst ` set (key_paths_items rest prefix).
      \<exists>k\<in>fst ` set rest. extends (member_key prefix k) s"
    using 7 by simp
  show ?case
  proof
    fix s assume "s \<in> fst ` set (key_paths_items (kv # rest) prefix)"
    then consider "s \<in> fst ` set (key_paths (snd kv) (member_key prefix (fst kv)))"
      | "s \<in> fst ` set (key_paths_items rest prefix)"
      by (auto simp: member_key_def)
    then show "\<exists>k\<in>fst ` set (kv # rest). extends (member_key prefix k) s"
    proof cases
      case 1
      then show ?thesis using here by auto
    next
      case 2
      then show ?thesis using later by auto
    qed
  qed
qed

lemma key_paths_distinct:
  "plain_keys obj \<Longrightarrow> distinct (map fst (key_paths obj prefix))"
  "plain_keys_list elems \<Longrightarrow> distinct (map fst (key_paths_list elems i prefix))"
  "plain_keys_items items \<Longrightarrow> distinct (map fst items) \<Longrightarrow>
     distinct (map fst (key_paths_items items prefix))"
proof (induction obj prefix and elems i prefix and items prefix
    rule: key_paths_key_paths_list_key_paths_items.induct)
  case (1 s prefix)
  show ?case by simp
next
  case (2 obj prefix)
  then show ?case by simp
next
  case (3 obj prefix)
  then show ?case by simp
next
  case (4 i prefix)
  show ?case by simp
next
  case (5 item rest i prefix)
  have a: "distinct (map fst (key_paths item (index_key prefix i)))"
    using 5 by (simp add: index_key_def)
  have b: "distinct (map fst (key_paths_list rest (Suc i) prefix))"
    using 5 by simp
  have "fst ` set (key_paths item (index_key prefix i)) \<inter>
        fst ` set (key_paths_list rest (Suc i) prefix) = {}"
  proof (rule ccontr)
    assume "\<not> ?thesis"
    then obtain s where s1: "s \<in> fst ` set (key_paths item (index_key prefix i))"
      and s2: "s \<in> fst ` set (key_paths_list rest (Suc i) prefix)"
      by blast
    have "extends (index_key prefix i) s"
      using key_paths_shape(1) [of item "index_key prefix i"] "5.prems" s1 index_key_nonempty
      by auto
    moreover obtain j where "Suc i \<le> j" "extends (index_key prefix j) s"
      using key_paths_shape(2) [of rest "Suc i" prefix] "5.prems" s2 by auto
    ultimately show False using index_key_unique [of prefix i s j] by simp
  qed
  then show ?case using a b by (simp add: index_key_def)
next
  case (6 prefix)
  show ?case by simp
next
  case (7 kv rest prefix)
  have pk: "plain_key (fst kv)" using "7.prems" by simp
  have a: "distinct (map fst (key_paths (snd kv) (member_key prefix (fst kv))))"
    using 7 by (simp add: member_key_def)
  have b: "distinct (map fst (key_paths_items rest prefix))"
    using 7 by simp
  have "fst ` set (key_paths (snd kv) (member_key prefix (fst kv))) \<inter>
        fst ` set (key_paths_items rest prefix) = {}"
  proof (rule ccontr)
    assume "\<not> ?thesis"
    then obtain s where s1: "s \<in> fst ` set (key_paths (snd kv) (member_key prefix (fst kv)))"
      and s2: "s \<in> fst ` set (key_paths_items rest prefix)"
      by blast
    have e1: "extends (member_key prefix (fst kv)) s"
      using key_paths_shape(1) [of "snd kv" "member_key prefix (fst kv)"] "7.prems" s1
        member_key_nonempty [OF pk]
      by auto
    obtain kv' where kv': "kv' \<in> set rest" and e2: "extends (member_key prefix (fst kv')) s"
      using key_paths_shape(3) [of rest prefix] "7.prems" s2 by auto
    have "plain_key (fst kv')"
      using kv' "7.prems"(1) by (induction rest) auto
    then have "fst kv = fst kv'"
      using member_key_unique [OF e1 e2 pk] by simp
    then show False using kv' "7.prems"(2) by auto
  qed
  then show ?case using a b by (simp add: member_key_def)
qed

lemma flatten_json_key_paths:
  assumes "plain_keys obj"
  shows "flatten_json obj prefix = key_paths obj prefix"
proof -
  have "distinct (map fst ([] @ key_paths obj prefix))"
    using key_paths_distinct(1) [OF assms] by simp
  then have "dict_update [] (key_paths obj prefix) = [] @ key_paths obj prefix"
    by (rule dict_update_new)
  then show ?thesis by (simp add: flatten_json_refines(1))
qed

lemma key_paths_leaves:
  "map snd (key_paths obj prefix) = leaves obj"
  "map snd (key_paths_list elems i prefix) = leaves_list elems"
  "map snd (key_paths_items items prefix) = leaves_items items"
  by (induction obj prefix and elems i prefix and items prefix
      rule: key_paths_key_paths_list_key_paths_items.induct) simp_all

text \<open>
  Claim C7, as amended. For a value in which the keys of every object differ from one
  another and no object key is empty or contains \<open>.\<close> or \<open>[\<close>: the flattened mapping is
  the list of key-path and leaf pairs itself, its keys are pairwise distinct, and its
  values are the scalar leaves of the value in traversal order, one entry per leaf.
\<close>

theorem C7_distinct_key_paths:
  assumes "plain_keys obj"
  shows "flatten_json obj prefix = key_paths obj prefix \<and>
         distinct (map fst (flatten_json obj prefix)) \<and>
         map snd (flatten_json obj prefix) = leaves obj"
  using assms
  by (simp add: flatten_json_key_paths key_paths_distinct(1) key_paths_leaves(1))

text \<open>
  Against claim C7 as stated: the object \<open>{"a.b": 1, "a": {"b": 2}}\<close> has two leaves,
  both get the key-path \<open>a.b\<close>, and the flattened mapping has the single entry
  \<open>a.b \<mapsto> 2\<close>; a key containing \<open>[\<close> and an empty key collide in the same way.
\<close>

theorem C7_distinct_key_paths_counterexample:
  "flatten_json (JDict [(''a.b'', JInt 1), (''a'', JDict [(''b'', JInt 2)])]) [] =
     [(''a.b'', SInt 2)] \<and>
   leaves (JDict [(''a.b'', JInt 1), (''a'', JDict [(''b'', JInt 2)])]) = [SInt 1, SInt 2] \<and>
   key_paths (JDict [(''a.b'', JInt 1), (''a'', JDict [(''b'', JInt 2)])]) [] =
     [(''a.b'', SInt 1), (''a.b'', SInt 2)] \<and>
   flatten_json (JDict [(''a'', JList [JInt 1]), (''a[0]'', JInt 2)]) [] = [(''a[0]'', SInt 2)] \<and>
   flatten_json (JDict [('''', JDict [(''x'', JInt 1)]), (''x'', JInt 2)]) [] = [(''x'', SInt 2)]"
  by code_simp

text \<open>
  The object of the specification's example has plain keys.
\<close>

theorem C7_distinct_key_paths_witness:
  "plain_keys (JDict [(''a'', JDict [(''b'', JInt 1)]), (''c'', JList [JInt 2, JInt 3])]) \<and>
   flatten_json (JDict [(''a'', JDict [(''b'', JInt 1)]), (''c'', JList [JInt 2, JInt 3])]) [] =
     [(''a.b'', SInt 1), (''c[0]'', SInt 2), (''c[1]'', SInt 3)] \<and>
   distinct [''a.b'', ''c[0]'', ''c[1]''] \<and>
   leaves (JDict [(''a'', JDict [(''b'', JInt 1)]), (''c'', JList [JInt 2, JInt 3])]) =
     [SInt 1, SInt 2, SInt 3]"
proof -
  let ?v = "JDict [(''a'', JDict [(''b'', JInt 1)]), (''c'', JList [JInt 2, JInt 3])]"
  have h: "plain_keys ?v" by (simp add: plain_key_def)
  have k: "key_paths ?v [] = [(''a.b'', SInt 1), (''c[0]'', SInt 2), (''c[1]'', SInt 3)]"
    by code_simp
  show ?thesis
    using C7_distinct_key_paths [OF h, of "[]"] h unfolding k by simp
qed

end
